theory Spec2Isabelle
  imports Main "HOL-Library.Log_Nat"
begin


section \<open>Python values\<close>

text \<open>
  The two scripts \<^verbatim>\<open>bird_4480_wattmeter_datalogging.py\<close> (the interactive monitor) and
  \<^verbatim>\<open>ex01_bird4480a_log_data_to_csv.py\<close> (the batch logger) compute with Python floats,
  integers and strings. A float is an IEEE binary64 number: a rational, the negative
  zero, an infinity or a nan. Raising an exception is the left injection of a sum;
  \<^verbatim>\<open>VisaIOError\<close> stands for a failed instrument query.
\<close>

datatype pyfloat = Fin rat | NegZero | PInf | NInf | NaN

datatype error = ValueError | TypeError | OverflowError | ZeroDivisionError | VisaIOError

datatype pyval = PyNone | PyBool bool | PyInt int | PyFloat pyfloat | PyStr string

text \<open>
  A \<^verbatim>\<open>try\<close> block whose handler returns a constant, and sequencing of computations that
  may raise.
\<close>

definition try_except :: "error + 'a \<Rightarrow> 'a \<Rightarrow> error + 'a" where
  "try_except body dflt = (case body of Inl _ \<Rightarrow> Inr dflt | Inr v \<Rightarrow> Inr v)"

definition bnd :: "error + 'a \<Rightarrow> ('a \<Rightarrow> error + 'b) \<Rightarrow> error + 'b" where
  "bnd m f = (case m of Inl e \<Rightarrow> Inl e | Inr v \<Rightarrow> f v)"

subsection \<open>Rounding to binary64\<close>

text \<open>
  Round to nearest, ties to even, with gradual underflow (the smallest exponent of a unit
  in the last place is \<open>-1074\<close>) and overflow to an infinity. \<open>rnd_fin\<close> rounds with an
  unbounded exponent range above; \<open>rnd\<close> adds the signed zero and the overflow.
\<close>

definition floor_log2 :: "rat \<Rightarrow> int" where
  "floor_log2 x =
     (let (p, q) = quotient_of x; d = bitlen p - bitlen q
      in if 2 powi d \<le> x then d else d - 1)"

definition round_half_even :: "rat \<Rightarrow> int" where
  "round_half_even x =
     (let f = \<lfloor>x\<rfloor>; d = x - of_int f
      in if d < 1 / 2 then f else if 1 / 2 < d then f + 1 else if even f then f else f + 1)"

definition ulp_exp :: "rat \<Rightarrow> int" where
  "ulp_exp x = max (floor_log2 \<bar>x\<bar>) (- 1022) - 52"

definition rnd_fin :: "rat \<Rightarrow> rat" where
  "rnd_fin x = (if x = 0 then 0
     else of_int (round_half_even (x / 2 powi ulp_exp x)) * 2 powi ulp_exp x)"

definition rnd :: "rat \<Rightarrow> pyfloat" where
  "rnd x = (let y = rnd_fin x
     in if y = 0 then (if x < 0 then NegZero else Fin 0)
        else if 1024 \<le> floor_log2 \<bar>y\<bar> then (if y < 0 then NInf else PInf)
        else Fin y)"

definition is_double :: "pyfloat \<Rightarrow> bool" where
  "is_double x = (case x of Fin q \<Rightarrow> rnd q = Fin q | _ \<Rightarrow> True)"

subsection \<open>Float arithmetic and comparison\<close>

text \<open>
  The float operations of CPython: \<^verbatim>\<open>+\<close>, \<^verbatim>\<open>-\<close>, \<^verbatim>\<open>*\<close> never raise, \<^verbatim>\<open>/\<close>, \<^verbatim>\<open>//\<close> and \<^verbatim>\<open>%\<close>
  raise \<^verbatim>\<open>ZeroDivisionError\<close> on a zero divisor; \<^verbatim>\<open>//\<close> and \<^verbatim>\<open>%\<close> follow the steps of
  \<^verbatim>\<open>float_divmod\<close>. Comparisons with a nan are false.
\<close>

fun is_nan :: "pyfloat \<Rightarrow> bool" where
  "is_nan NaN = True"
| "is_nan _ = False"

fun is_inf :: "pyfloat \<Rightarrow> bool" where
  "is_inf PInf = True"
| "is_inf NInf = True"
| "is_inf _ = False"

fun fval :: "pyfloat \<Rightarrow> rat" where
  "fval (Fin q) = q"
| "fval _ = 0"

fun is_zero :: "pyfloat \<Rightarrow> bool" where
  "is_zero (Fin q) = (q = 0)"
| "is_zero NegZero = True"
| "is_zero _ = False"

fun fsign :: "pyfloat \<Rightarrow> bool" where
  "fsign (Fin q) = (q < 0)"
| "fsign NegZero = True"
| "fsign NInf = True"
| "fsign _ = False"

definition fzero :: "bool \<Rightarrow> pyfloat" where
  "fzero neg = (if neg then NegZero else Fin 0)"

definition finf :: "bool \<Rightarrow> pyfloat" where
  "finf neg = (if neg then NInf else PInf)"

fun fneg :: "pyfloat \<Rightarrow> pyfloat" where
  "fneg (Fin q) = (if q = 0 then NegZero else Fin (- q))"
| "fneg NegZero = Fin 0"
| "fneg PInf = NInf"
| "fneg NInf = PInf"
| "fneg NaN = NaN"

definition fadd :: "pyfloat \<Rightarrow> pyfloat \<Rightarrow> pyfloat" where
  "fadd a b =
     (if is_nan a \<or> is_nan b then NaN
      else if is_inf a then (if is_inf b \<and> fsign a \<noteq> fsign b then NaN else a)
      else if is_inf b then b
      else if fval a + fval b = 0 then fzero (fsign a \<and> fsign b)
      else rnd (fval a + fval b))"

definition fsub :: "pyfloat \<Rightarrow> pyfloat \<Rightarrow> pyfloat" where
  "fsub a b = fadd a (fneg b)"

definition fmul :: "pyfloat \<Rightarrow> pyfloat \<Rightarrow> pyfloat" where
  "fmul a b =
     (if is_nan a \<or> is_nan b then NaN
      else if is_inf a \<or> is_inf b then
        (if is_zero a \<or> is_zero b then NaN else finf (fsign a \<noteq> fsign b))
      else if fval a * fval b = 0 then fzero (fsign a \<noteq> fsign b)
      else rnd (fval a * fval b))"

definition c_div :: "pyfloat \<Rightarrow> pyfloat \<Rightarrow> pyfloat" where
  "c_div a b =
     (if is_nan a \<or> is_nan b then NaN
      else if is_inf a then (if is_inf b then NaN else finf (fsign a \<noteq> fsign b))
      else if is_inf b then fzero (fsign a \<noteq> fsign b)
      else if is_zero b then (if is_zero a then NaN else finf (fsign a \<noteq> fsign b))
      else if fval a = 0 then fzero (fsign a \<noteq> fsign b)
      else rnd (fval a / fval b))"

definition fdiv :: "pyfloat \<Rightarrow> pyfloat \<Rightarrow> error + pyfloat" where
  "fdiv a b = (if is_zero b then Inl ZeroDivisionError else Inr (c_div a b))"

definition flt :: "pyfloat \<Rightarrow> pyfloat \<Rightarrow> bool" where
  "flt a b =
     (\<not> is_nan a \<and> \<not> is_nan b \<and>
      (if is_inf a \<or> is_inf b then (a = NInf \<and> b \<noteq> NInf) \<or> (b = PInf \<and> a \<noteq> PInf)
       else fval a < fval b))"

definition fle :: "pyfloat \<Rightarrow> pyfloat \<Rightarrow> bool" where
  "fle a b =
     (\<not> is_nan a \<and> \<not> is_nan b \<and>
      (if is_inf a \<or> is_inf b then a = NInf \<or> b = PInf
       else fval a \<le> fval b))"

definition c_floor :: "pyfloat \<Rightarrow> pyfloat" where
  "c_floor x = (case x of Fin q \<Rightarrow> Fin (of_int \<lfloor>q\<rfloor>) | _ \<Rightarrow> x)"

definition c_fmod :: "pyfloat \<Rightarrow> pyfloat \<Rightarrow> pyfloat" where
  "c_fmod x y =
     (if is_nan x \<or> is_nan y \<or> is_inf x \<or> is_zero y then NaN
      else if is_inf y \<or> is_zero x then x
      else (let r = \<bar>fval x\<bar> - \<bar>fval y\<bar> * of_int \<lfloor>\<bar>fval x\<bar> / \<bar>fval y\<bar>\<rfloor>
            in if r = 0 then fzero (fsign x) else Fin (if fsign x then - r else r)))"

definition float_rem :: "pyfloat \<Rightarrow> pyfloat \<Rightarrow> error + pyfloat" where
  "float_rem vx wx =
     (if is_zero wx then Inl ZeroDivisionError
      else (let md = c_fmod vx wx
            in Inr (if \<not> is_zero md
                    then (if flt wx (Fin 0) \<noteq> flt md (Fin 0) then fadd md wx else md)
                    else fzero (fsign wx))))"

definition float_floor_div :: "pyfloat \<Rightarrow> pyfloat \<Rightarrow> error + pyfloat" where
  "float_floor_div vx wx =
     (if is_zero wx then Inl ZeroDivisionError
      else (let md = c_fmod vx wx;
                div0 = c_div (fsub vx md) wx;
                div1 = (if \<not> is_zero md \<and> flt wx (Fin 0) \<noteq> flt md (Fin 0)
                        then fsub div0 (Fin 1) else div0)
            in Inr (if \<not> is_zero div1
                    then (let floordiv = c_floor div1
                          in if flt (Fin (1 / 2)) (fsub div1 floordiv)
                             then fadd floordiv (Fin 1) else floordiv)
                    else fzero (fsign (c_div vx wx)))))"

text \<open>
  \<^verbatim>\<open>int(x)\<close> truncates toward zero, \<^verbatim>\<open>float(n)\<close> and \<^verbatim>\<open>a / b\<close> on integers round the exact
  value once and raise \<^verbatim>\<open>OverflowError\<close> beyond the float range, and \<^verbatim>\<open>round(x, 2)\<close>
  rounds the shortest two-decimal value correctly.
\<close>

definition int_of_float :: "pyfloat \<Rightarrow> error + int" where
  "int_of_float x =
     (case x of Fin q \<Rightarrow> Inr (if q < 0 then - \<lfloor>- q\<rfloor> else \<lfloor>q\<rfloor>)
      | NegZero \<Rightarrow> Inr 0
      | NaN \<Rightarrow> Inl ValueError
      | _ \<Rightarrow> Inl OverflowError)"

definition float_of_int :: "int \<Rightarrow> error + pyfloat" where
  "float_of_int n =
     (case rnd (of_int n) of PInf \<Rightarrow> Inl OverflowError | NInf \<Rightarrow> Inl OverflowError
      | r \<Rightarrow> Inr r)"

definition int_truediv :: "int \<Rightarrow> int \<Rightarrow> error + pyfloat" where
  "int_truediv a b =
     (if b = 0 then Inl ZeroDivisionError
      else if a = 0 then Inr (fzero (b < 0))
      else (case rnd (of_int a / of_int b) of PInf \<Rightarrow> Inl OverflowError
            | NInf \<Rightarrow> Inl OverflowError | r \<Rightarrow> Inr r))"

definition py_round2 :: "pyfloat \<Rightarrow> error + pyfloat" where
  "py_round2 x =
     (case x of
        Fin q \<Rightarrow>
          (let r = of_int (round_half_even (q * 100)) / 100
           in if r = 0 then Inr (fzero (q < 0))
              else (case rnd r of PInf \<Rightarrow> Inl OverflowError | NInf \<Rightarrow> Inl OverflowError
                    | y \<Rightarrow> Inr y))
      | _ \<Rightarrow> Inr x)"

text \<open>
  \<^verbatim>\<open>math.log10\<close> belongs to the platform's mathematical library, not to the repository:
  its value on a positive finite float is the parameter \<open>L\<close>. Its behaviour elsewhere is
  CPython's: a nan gives a nan, the positive infinity itself, and a zero, a negative
  number or the negative infinity raise \<^verbatim>\<open>ValueError\<close>.
\<close>

definition math_log10 :: "(rat \<Rightarrow> rat) \<Rightarrow> pyfloat \<Rightarrow> error + pyfloat" where
  "math_log10 L x =
     (case x of NaN \<Rightarrow> Inr NaN | PInf \<Rightarrow> Inr PInf
      | Fin q \<Rightarrow> if 0 < q then Inr (Fin (L q)) else Inl ValueError
      | _ \<Rightarrow> Inl ValueError)"

subsection \<open>Formatting\<close>

text \<open>
  \<^verbatim>\<open>str\<close> of an integer, and the format specifications \<^verbatim>\<open>02d\<close>, \<^verbatim>\<open>.2f\<close> and \<^verbatim>\<open>0.3f\<close> of the
  scripts' f-strings.
\<close>

definition digit_char :: "nat \<Rightarrow> char" where
  "digit_char n = ''0123456789'' ! n"

fun dec_digits :: "nat \<Rightarrow> string" where
  "dec_digits n = (if n < 10 then [digit_char n] else dec_digits (n div 10) @ [digit_char (n mod 10)])"

definition zero_pad :: "nat \<Rightarrow> string \<Rightarrow> string" where
  "zero_pad w s = replicate (w - length s) CHR ''0'' @ s"

definition str_int :: "int \<Rightarrow> string" where
  "str_int n = (if n < 0 then CHR ''-'' # dec_digits (nat (- n)) else dec_digits (nat n))"

definition format_02d :: "int \<Rightarrow> string" where
  "format_02d n = (if n < 0 then CHR ''-'' # zero_pad 1 (dec_digits (nat (- n)))
                   else zero_pad 2 (dec_digits (nat n)))"

definition format_f :: "nat \<Rightarrow> pyfloat \<Rightarrow> string" where
  "format_f d x =
     (case x of
        Fin q \<Rightarrow>
          (let n = nat (round_half_even (\<bar>q\<bar> * 10 ^ d))
           in (if q < 0 then ''-'' else '''') @ dec_digits (n div 10 ^ d) @ ''.''
              @ zero_pad d (dec_digits (n mod 10 ^ d)))
      | NegZero \<Rightarrow> ''-0.'' @ replicate d CHR ''0''
      | PInf \<Rightarrow> ''inf''
      | NInf \<Rightarrow> ''-inf''
      | NaN \<Rightarrow> ''nan'')"

subsection \<open>Converting text to numbers\<close>

text \<open>
  \<^verbatim>\<open>str.strip\<close>, \<^verbatim>\<open>float\<close> and \<^verbatim>\<open>int\<close> on the text of an instrument reply: optional white
  space and sign, digits with single underscores between them, a fraction and an
  exponent for floats, the words \<^verbatim>\<open>inf\<close>, \<^verbatim>\<open>infinity\<close> and \<^verbatim>\<open>nan\<close>; anything else raises
  \<^verbatim>\<open>ValueError\<close>.
\<close>

definition is_digit :: "char \<Rightarrow> bool" where
  "is_digit c = (let n = of_char c :: nat in 48 \<le> n \<and> n \<le> 57)"

definition digit_val :: "char \<Rightarrow> nat" where
  "digit_val c = of_char c - 48"

definition digits_val :: "string \<Rightarrow> nat" where
  "digits_val s = foldl (\<lambda>a c. 10 * a + digit_val c) 0 s"

definition is_space_str :: "char \<Rightarrow> bool" where
  "is_space_str c = (let n = of_char c :: nat
     in (9 \<le> n \<and> n \<le> 13) \<or> (28 \<le> n \<and> n \<le> 32) \<or> n = 133 \<or> n = 160)"

definition is_space_num :: "char \<Rightarrow> bool" where
  "is_space_num c = (let n = of_char c :: nat
     in (9 \<le> n \<and> n \<le> 13) \<or> n = 32 \<or> n = 133 \<or> n = 160)"

definition strip_with :: "(char \<Rightarrow> bool) \<Rightarrow> string \<Rightarrow> string" where
  "strip_with p s = rev (dropWhile p (rev (dropWhile p s)))"

definition str_strip :: "string \<Rightarrow> string" where
  "str_strip s = strip_with is_space_str s"

definition lower_ascii :: "char \<Rightarrow> char" where
  "lower_ascii c = (let n = of_char c :: nat in if 65 \<le> n \<and> n \<le> 90 then char_of (n + 32) else c)"

fun check_underscores :: "char \<Rightarrow> string \<Rightarrow> string option" where
  "check_underscores prev [] = (if prev = CHR ''_'' then None else Some [])"
| "check_underscores prev (c # cs) =
     (if c = CHR ''_'' then (if is_digit prev then check_underscores c cs else None)
      else if prev = CHR ''_'' \<and> \<not> is_digit c then None
      else map_option ((#) c) (check_underscores c cs))"

definition parse_sign :: "string \<Rightarrow> bool \<times> string" where
  "parse_sign s =
     (case s of [] \<Rightarrow> (False, [])
      | c # cs \<Rightarrow> if c = CHR ''-'' then (True, cs)
                  else if c = CHR ''+'' then (False, cs) else (False, s))"

definition parse_exponent :: "string \<Rightarrow> int option" where
  "parse_exponent s =
     (case s of [] \<Rightarrow> Some 0
      | c # cs \<Rightarrow>
          if c = CHR ''e'' \<or> c = CHR ''E'' then
            (let (neg, ds) = parse_sign cs
             in if ds \<noteq> [] \<and> list_all is_digit ds
                then Some (if neg then - int (digits_val ds) else int (digits_val ds))
                else None)
          else None)"

definition parse_float_body :: "string \<Rightarrow> pyfloat option" where
  "parse_float_body s =
     (let (neg, r) = parse_sign s; low = map lower_ascii r
      in if low = ''inf'' \<or> low = ''infinity'' then Some (finf neg)
         else if low = ''nan'' then Some NaN
         else (let ip = takeWhile is_digit r; r1 = dropWhile is_digit r;
                   (fp, r2) = (case r1 of [] \<Rightarrow> ([], [])
                               | c # cs \<Rightarrow> if c = CHR ''.''
                                   then (takeWhile is_digit cs, dropWhile is_digit cs)
                                   else ([], r1))
               in if ip = [] \<and> fp = [] then None
                  else (case parse_exponent r2 of None \<Rightarrow> None
                        | Some ex \<Rightarrow>
                            (let v = of_nat (digits_val (ip @ fp)) * 10 powi (ex - int (length fp))
                             in Some (if v = 0 then fzero neg
                                      else rnd (if neg then - v else v))))))"

definition py_float_str :: "string \<Rightarrow> error + pyfloat" where
  "py_float_str s =
     (case check_underscores (CHR 0x00) s of None \<Rightarrow> Inl ValueError
      | Some t \<Rightarrow> (case parse_float_body (strip_with is_space_num t) of
                      None \<Rightarrow> Inl ValueError | Some f \<Rightarrow> Inr f))"

definition py_int_str :: "string \<Rightarrow> error + int" where
  "py_int_str s =
     (let (neg, r) = parse_sign (strip_with is_space_num s)
      in case check_underscores (CHR 0x00) r of None \<Rightarrow> Inl ValueError
         | Some ds \<Rightarrow>
             if ds = [] \<or> \<not> list_all is_digit ds \<or> 4300 < length ds then Inl ValueError
             else Inr (if neg then - int (digits_val ds) else int (digits_val ds)))"

text \<open>
  \<^verbatim>\<open>float(x)\<close> on a Python value, and \<^verbatim>\<open>x == n\<close> for an integer \<open>n\<close>, which compares by
  value.
\<close>

fun py_float :: "pyval \<Rightarrow> error + pyfloat" where
  "py_float (PyFloat f) = Inr f"
| "py_float (PyInt n) = float_of_int n"
| "py_float (PyBool b) = Inr (Fin (if b then 1 else 0))"
| "py_float (PyStr s) = py_float_str s"
| "py_float PyNone = Inl TypeError"

fun py_eq_int :: "pyval \<Rightarrow> int \<Rightarrow> bool" where
  "py_eq_int PyNone n = False"
| "py_eq_int (PyBool b) n = ((if b then 1 else 0) = n)"
| "py_eq_int (PyInt i) n = (i = n)"
| "py_eq_int (PyFloat (Fin q)) n = (q = of_int n)"
| "py_eq_int (PyFloat NegZero) n = (n = 0)"
| "py_eq_int (PyFloat PInf) n = False"
| "py_eq_int (PyFloat NInf) n = False"
| "py_eq_int (PyFloat NaN) n = False"
| "py_eq_int (PyStr s) n = False"

section \<open>The interactive monitor\<close>

text \<open>
  The helper functions of \<^verbatim>\<open>bird_4480_wattmeter_datalogging.py\<close>. \<^verbatim>\<open>ms_to_hhmmss\<close> divides
  with \<^verbatim>\<open>/\<close>, so its seconds are a float; the three conversions wrap their body in a
  \<^verbatim>\<open>try\<close> whose handler returns a placeholder.
\<close>

definition ms_to_hhmmss :: "int \<Rightarrow> error + string" where
  "ms_to_hhmmss ms =
     bnd (int_truediv ms 1000) (\<lambda>seconds.
     bnd (float_floor_div seconds (Fin 3600)) (\<lambda>h.
     bnd (int_of_float h) (\<lambda>hours.
     bnd (float_rem seconds (Fin 3600)) (\<lambda>r.
     bnd (float_floor_div r (Fin 60)) (\<lambda>m.
     bnd (int_of_float m) (\<lambda>minutes.
     bnd (float_rem seconds (Fin 60)) (\<lambda>s.
     bnd (int_of_float s) (\<lambda>seconds'.
     Inr (format_02d hours @ '':'' @ format_02d minutes @ '':'' @ format_02d seconds')))))))))"

definition watts_to_dbm :: "(rat \<Rightarrow> rat) \<Rightarrow> pyval \<Rightarrow> error + pyval" where
  "watts_to_dbm L watts =
     try_except
       (bnd (py_float watts) (\<lambda>w.
          if fle w (Fin 0) then Inr (PyStr ''N/A'')
          else bnd (math_log10 L (fmul w (Fin 1000))) (\<lambda>l.
               Inr (PyStr (format_f 2 (fmul (Fin 10) l))))))
       (PyStr ''N/A'')"

definition vswr_to_return_loss :: "(rat \<Rightarrow> rat) \<Rightarrow> pyval \<Rightarrow> error + pyval" where
  "vswr_to_return_loss L VSWR =
     try_except
       (bnd (py_float VSWR) (\<lambda>v.
          if fle v (Fin 1) then Inr (PyStr ''0'')
          else bnd (fdiv (fsub v (Fin 1)) (fadd v (Fin 1))) (\<lambda>q.
               bnd (math_log10 L q) (\<lambda>l.
               Inr (PyStr (format_f 2 (fmul (Fin (- 20)) l)))))))
       (PyStr ''N/A'')"

definition band_selection :: "pyval \<Rightarrow> error + pyval" where
  "band_selection Band =
     try_except
       (if py_eq_int Band 1 then Inr (PyStr ''High Band 25 to 1000 MHz'')
        else if py_eq_int Band 0 then Inr (PyStr ''Low Band 2 to 30 MHz'')
        else Inr PyNone)
       (PyStr ''Error'')"

text \<open>
  One polling iteration, \<^verbatim>\<open>update_readings\<close>. The replies of the seven queries of an
  iteration are its input; a reply is the text received, or the exception of a failed
  query. The iteration counter, the labels of the window and the rows of the CSV file
  are the state. The conversions \<^verbatim>\<open>int(...)\<close> and \<^verbatim>\<open>round(float(....strip()), 2)\<close> of the
  replies are outside any \<^verbatim>\<open>try\<close>: when one raises, the iteration ends there with the
  state reached so far. The row is written after all labels are set.
\<close>

definition fetch_float :: "error + string \<Rightarrow> error + pyfloat" where
  "fetch_float reply = bnd reply (\<lambda>txt. bnd (py_float_str (str_strip txt)) py_round2)"

definition fetch_int :: "error + string \<Rightarrow> error + int" where
  "fetch_int reply = bnd reply py_int_str"

record gui_replies =
  syst_tim_1 :: "error + string"
  fetc_forw :: "error + string"
  fetc_refl :: "error + string"
  fetc_vswr :: "error + string"
  fetc_temp :: "error + string"
  syst_tim_2 :: "error + string"
  meas_band :: "error + string"

record gui_state =
  i_count :: int
  band_var :: pyval
  forward_power_var :: pyval
  reflected_power_var :: pyval
  forward_power_dbm_var :: pyval
  reflected_power_dbm_var :: pyval
  vswr_var :: pyval
  return_loss_var :: pyval
  temp_var :: pyval
  test_time_var :: pyval
  iteration_var :: pyval
  system_time_var :: pyval
  csv_rows :: "pyval list list"

definition fieldnames :: "pyval list" where
  "fieldnames = map PyStr
     [''Measurment Band'', ''Forward Average Power (W)'', ''Reflected Average Power (W)'',
      ''Forward Average Power (dBm)'', ''Reflected Average Power (dBm)'', ''VSWR'',
      ''Return Loss (dB)'', ''Temp (C)'', ''Measurment Count'', ''TestTime (ms)'',
      ''System Up Time'']"

definition gui_init :: gui_state where
  "gui_init = \<lparr> i_count = 0, band_var = PyStr [], forward_power_var = PyStr [],
     reflected_power_var = PyStr [], forward_power_dbm_var = PyStr [],
     reflected_power_dbm_var = PyStr [], vswr_var = PyStr [], return_loss_var = PyStr [],
     temp_var = PyStr [], test_time_var = PyStr [], iteration_var = PyStr [],
     system_time_var = PyStr [], csv_rows = [fieldnames] \<rparr>"

record readings =
  r_forward_power :: pyfloat
  r_reflected_power :: pyfloat
  r_vswr :: pyfloat
  r_temp :: pyfloat
  r_TestTime_ms :: int
  r_band :: pyval
  r_forward_power_dbm :: pyval
  r_reflected_power_dbm :: pyval
  r_return_loss :: pyval

definition fetch_readings :: "(rat \<Rightarrow> rat) \<Rightarrow> gui_replies \<Rightarrow> int \<Rightarrow> error + readings" where
  "fetch_readings L q SystemTime_ms =
     bnd (fetch_float (fetc_forw q)) (\<lambda>forward_power.
     bnd (fetch_float (fetc_refl q)) (\<lambda>reflected_power.
     bnd (fetch_float (fetc_vswr q)) (\<lambda>vswr.
     bnd (fetch_float (fetc_temp q)) (\<lambda>temp.
     bnd (fetch_int (syst_tim_2 q)) (\<lambda>t.
     bnd (fetch_int (meas_band q)) (\<lambda>meas_band.
     bnd (band_selection (PyInt meas_band)) (\<lambda>band.
     bnd (watts_to_dbm L (PyFloat forward_power)) (\<lambda>forward_power_dbm.
     bnd (watts_to_dbm L (PyFloat reflected_power)) (\<lambda>reflected_power_dbm.
     bnd (vswr_to_return_loss L (PyFloat vswr)) (\<lambda>return_loss.
     Inr \<lparr> r_forward_power = forward_power, r_reflected_power = reflected_power,
           r_vswr = vswr, r_temp = temp, r_TestTime_ms = t - SystemTime_ms, r_band = band,
           r_forward_power_dbm = forward_power_dbm,
           r_reflected_power_dbm = reflected_power_dbm,
           r_return_loss = return_loss \<rparr>))))))))))"

definition update_readings ::
  "(rat \<Rightarrow> rat) \<Rightarrow> gui_replies \<Rightarrow> gui_state \<Rightarrow> (error + unit) \<times> gui_state" where
  "update_readings L q s =
     (let s1 = s\<lparr> i_count := i_count s + 1 \<rparr>;
          s2 = s1\<lparr> iteration_var := PyStr (str_int (i_count s1)) \<rparr>
      in case fetch_int (syst_tim_1 q) of Inl e \<Rightarrow> (Inl e, s2)
         | Inr SystemTime_ms \<Rightarrow>
       (case ms_to_hhmmss SystemTime_ms of Inl e \<Rightarrow> (Inl e, s2)
         | Inr system_time_str \<Rightarrow>
       (let s3 = s2\<lparr> system_time_var := PyStr system_time_str \<rparr>
        in case fetch_readings L q SystemTime_ms of Inl e \<Rightarrow> (Inl e, s3)
           | Inr r \<Rightarrow>
             (let s4 = s3\<lparr> band_var := r_band r,
                            forward_power_var := PyFloat (r_forward_power r),
                            reflected_power_var := PyFloat (r_reflected_power r),
                            forward_power_dbm_var := r_forward_power_dbm r,
                            reflected_power_dbm_var := r_reflected_power_dbm r,
                            vswr_var := PyFloat (r_vswr r),
                            return_loss_var := r_return_loss r,
                            temp_var := PyFloat (r_temp r),
                            test_time_var := PyStr (str_int (r_TestTime_ms r)) \<rparr>;
                  row = [r_band r, PyFloat (r_forward_power r), PyFloat (r_reflected_power r),
                         r_forward_power_dbm r, r_reflected_power_dbm r, PyFloat (r_vswr r),
                         r_return_loss r, PyFloat (r_temp r), PyInt (i_count s4),
                         PyInt (r_TestTime_ms r), PyStr system_time_str]
              in (Inr (), s4\<lparr> csv_rows := csv_rows s4 @ [row] \<rparr>)))))"


section \<open>The batch logger\<close>

text \<open>
  The batch logger's \<^verbatim>\<open>vswr_to_return_loss\<close> returns the float literal \<^verbatim>\<open>9.999e+37\<close> where
  the monitor's returns a string.
\<close>

definition sentinel :: pyfloat where
  "sentinel = rnd (9999 * 10 ^ 34)"

definition vswr_to_return_loss_batch :: "(rat \<Rightarrow> rat) \<Rightarrow> pyval \<Rightarrow> error + pyval" where
  "vswr_to_return_loss_batch L VSWR =
     try_except
       (bnd (py_float VSWR) (\<lambda>v.
          if fle v (Fin 1) then Inr (PyFloat sentinel)
          else bnd (fdiv (fsub v (Fin 1)) (fadd v (Fin 1))) (\<lambda>q.
               bnd (math_log10 L q) (\<lambda>l.
               Inr (PyStr (format_f 2 (fmul (Fin (- 20)) l)))))))
       (PyFloat sentinel)"

text \<open>
  The loop of the batch logger. An iteration reads four replies and then the clock
  (\<^verbatim>\<open>b_time\<close> is the value of \<^verbatim>\<open>time.time()\<close> in that iteration); the state is the rows
  written, the elapsed time, the next print threshold and the lines printed. The loop
  runs over the sequence of its iterations' inputs: it ends \<open>Completed\<close> when the test
  \<^verbatim>\<open>elapsed_time < log_duration\<close> fails, \<open>Raised\<close> when an iteration raises, and is still
  \<open>Running\<close> when the inputs are used up before either.
\<close>

record batch_tick =
  b_forw :: "error + string"
  b_refl :: "error + string"
  b_vswr :: "error + string"
  b_temp :: "error + string"
  b_time :: pyfloat

record batch_state =
  file_rows :: "pyval list list"
  elapsed_time :: pyfloat
  print_interval_flag :: pyfloat
  stdout :: "string list"

datatype outcome = Completed | Raised error | Running

definition header :: "pyval list" where
  "header = map PyStr [''Time (s)'', ''Fwd_Power (W)'', ''Refl_Power (W)'', ''VSWR'',
     ''Return Loss (dB)'', ''Temperature (deg C)'']"

definition log_duration :: pyfloat where
  "log_duration = Fin 1800"

definition batch_init :: batch_state where
  "batch_init = \<lparr> file_rows = [header], elapsed_time = Fin 0,
     print_interval_flag = Fin 60, stdout = [''Testing started....''] \<rparr>"

definition batch_body ::
  "(rat \<Rightarrow> rat) \<Rightarrow> pyfloat \<Rightarrow> batch_tick \<Rightarrow> batch_state \<Rightarrow> error + batch_state" where
  "batch_body L t1 q s =
     bnd (fetch_float (b_forw q)) (\<lambda>forward_power.
     bnd (fetch_float (b_refl q)) (\<lambda>reflected_power.
     bnd (fetch_float (b_vswr q)) (\<lambda>vswr.
     bnd (vswr_to_return_loss_batch L (PyFloat vswr)) (\<lambda>rl.
     bnd (fetch_float (b_temp q)) (\<lambda>temp.
       (let t2 = b_time q;
            elapsed = fsub t2 t1;
            etime = format_f 3 elapsed;
            data = [PyStr etime, PyFloat forward_power, PyFloat reflected_power,
                    PyFloat vswr, rl, PyFloat temp];
            s1 = s\<lparr> elapsed_time := elapsed, file_rows := file_rows s @ [data] \<rparr>
        in Inr (if flt (print_interval_flag s1) elapsed
                then s1\<lparr> stdout := stdout s1
                               @ [''Elapsed time: '' @ format_f 3 (fsub t2 t1) @ '' s''],
                          print_interval_flag := fadd (print_interval_flag s1) (Fin 60) \<rparr>
                else s1)))))))"

fun batch_loop ::
  "(rat \<Rightarrow> rat) \<Rightarrow> pyfloat \<Rightarrow> batch_tick list \<Rightarrow> batch_state \<Rightarrow> outcome \<times> batch_state" where
  "batch_loop L t1 [] s = (if flt (elapsed_time s) log_duration then (Running, s)
                           else (Completed, s))"
| "batch_loop L t1 (q # qs) s =
     (if flt (elapsed_time s) log_duration
      then (case batch_body L t1 q s of Inl e \<Rightarrow> (Raised e, s)
            | Inr s' \<Rightarrow> batch_loop L t1 qs s')
      else (Completed, s))"

definition batch_main ::
  "(rat \<Rightarrow> rat) \<Rightarrow> pyfloat \<Rightarrow> batch_tick list \<Rightarrow> outcome \<times> batch_state" where
  "batch_main L t1 ticks =
     (case batch_loop L t1 ticks batch_init of
        (Completed, s) \<Rightarrow> (Completed, s\<lparr> stdout := stdout s @ [''Testing ended!!!''] \<rparr>)
      | (out, s) \<Rightarrow> (out, s))"

text \<open>
  A float argument of a helper function is a binary64 number.
\<close>

definition wf_pyval :: "pyval \<Rightarrow> bool" where
  "wf_pyval x = (case x of PyFloat f \<Rightarrow> is_double f | _ \<Rightarrow> True)"

subsection \<open>Successful iterations\<close>

text \<open>
  The replies of an iteration convert when none of the conversions of the loop body
  raises. An iteration is successful when it does not raise; whether it does depends
  on its replies only, not on the state, so the initial state serves to test it. The
  batch loop completes the iterations up to the first one that raises, and at most one
  more than those that measured an elapsed time below the duration.
\<close>

definition gui_replies_convert :: "gui_replies \<Rightarrow> bool" where
  "gui_replies_convert q =
     (\<not> isl (fetch_int (syst_tim_1 q)) \<and> \<not> isl (fetch_float (fetc_forw q))
      \<and> \<not> isl (fetch_float (fetc_refl q)) \<and> \<not> isl (fetch_float (fetc_vswr q))
      \<and> \<not> isl (fetch_float (fetc_temp q)) \<and> \<not> isl (fetch_int (syst_tim_2 q))
      \<and> \<not> isl (fetch_int (meas_band q)))"

definition batch_replies_convert :: "batch_tick \<Rightarrow> bool" where
  "batch_replies_convert q =
     (\<not> isl (fetch_float (b_forw q)) \<and> \<not> isl (fetch_float (b_refl q))
      \<and> \<not> isl (fetch_float (b_vswr q)) \<and> \<not> isl (fetch_float (b_temp q)))"


definition batch_tick_ok :: "(rat \<Rightarrow> rat) \<Rightarrow> pyfloat \<Rightarrow> batch_tick \<Rightarrow> bool" where
  "batch_tick_ok L t1 q = (\<not> isl (batch_body L t1 q batch_init))"

definition in_time :: "pyfloat \<Rightarrow> batch_tick \<Rightarrow> bool" where
  "in_time t1 q = flt (fsub (b_time q) t1) log_duration"

definition completed_iterations :: "(rat \<Rightarrow> rat) \<Rightarrow> pyfloat \<Rightarrow> batch_tick list \<Rightarrow> nat" where
  "completed_iterations L t1 qs =
     (let oks = takeWhile (batch_tick_ok L t1) qs
      in min (length oks) (Suc (length (takeWhile (in_time t1) oks))))"

lemma pow2_less_iff: "(2::rat) powi a < 2 powi b \<longleftrightarrow> a < b"
  using power_int_strict_increasing[of a b "2::rat"] power_int_increasing[of b a "2::rat"]
  by (auto simp: not_less[symmetric])

lemma pow2_le_iff: "(2::rat) powi a \<le> 2 powi b \<longleftrightarrow> a \<le> b"
  using pow2_less_iff[of b a] by (simp add: not_less[symmetric])

lemma of_int_bitlen_bounds:
  assumes "0 < p"
  shows "(2::rat) powi (bitlen p - 1) \<le> of_int p" "(of_int p :: rat) < 2 powi bitlen p"
proof -
  from bitlen_bounds[OF assms] have a: "2 ^ nat (bitlen p - 1) \<le> p" and b: "p < 2 ^ nat (bitlen p)"
    by auto
  have pos: "0 < bitlen p" using assms bitlen_nonneg[of p] bitlen_eq_zero_iff[of p] by simp
  have "(of_int (2 ^ nat (bitlen p - 1)) :: rat) \<le> of_int p" using a by (simp only: of_int_le_iff)
  then show "(2::rat) powi (bitlen p - 1) \<le> of_int p"
    using pos by (simp add: power_int_def)
  have "(of_int p :: rat) < of_int (2 ^ nat (bitlen p))" using b by (simp only: of_int_less_iff)
  then show "(of_int p :: rat) < 2 powi bitlen p"
    using pos by (simp add: power_int_def)
qed

lemma floor_log2_bounds:
  assumes "0 < x"
  shows "2 powi (floor_log2 x) \<le> x" and "x < 2 powi (floor_log2 x + 1)"
proof -
  obtain p q where pq: "quotient_of x = (p, q)" by (cases "quotient_of x")
  have q: "0 < q" using quotient_of_denom_pos[OF pq] .
  have x: "x = of_int p / of_int q" using quotient_of_div[OF pq] .
  have p: "0 < p" using assms q x by (simp add: zero_less_divide_iff)
  define d where "d = bitlen p - bitlen q"
  have fl: "floor_log2 x = (if 2 powi d \<le> x then d else d - 1)"
    by (simp add: floor_log2_def pq d_def)
  note bp = of_int_bitlen_bounds[OF p] and bq = of_int_bitlen_bounds[OF q]
  have qpos: "(0::rat) < of_int q" using q by simp
  have "x < 2 powi bitlen p / 2 powi (bitlen q - 1)"
    unfolding x using bp(2) bq(1) qpos p
    by (intro frac_less) auto
  moreover have e1: "bitlen p - (bitlen q - 1) = d + 1" by (simp add: d_def)
  ultimately have up: "x < 2 powi (d + 1)"
    using power_int_diff[of "2::rat" "bitlen p" "bitlen q - 1"] by (simp only: e1) simp
  have "2 powi (bitlen p - 1) / 2 powi bitlen q < x"
    unfolding x using bp(1) bq(2) qpos p
    by (intro frac_less2) auto
  moreover have e2: "bitlen p - 1 - bitlen q = d - 1" by (simp add: d_def)
  ultimately have lo: "2 powi (d - 1) < x"
    using power_int_diff[of "2::rat" "bitlen p - 1" "bitlen q"] by (simp only: e2) simp
  show "2 powi (floor_log2 x) \<le> x" using lo by (simp add: fl less_imp_le)
  show "x < 2 powi (floor_log2 x + 1)" using up by (auto simp add: fl not_le)
qed

lemma floor_log2_eqI:
  assumes "2 powi e \<le> x" "x < 2 powi (e + 1)"
  shows "floor_log2 x = e"
proof -
  have x: "0 < x" using assms(1) by (smt (verit) zero_less_power_int zero_less_numeral less_le_trans)
  note b = floor_log2_bounds[OF x]
  have "(2::rat) powi e < 2 powi (floor_log2 x + 1)" using assms(1) b(2) by simp
  then have 1: "e < floor_log2 x + 1" by (simp only: pow2_less_iff)
  have "(2::rat) powi floor_log2 x < 2 powi (e + 1)" using assms(2) b(1) by simp
  then have 2: "floor_log2 x < e + 1" by (simp only: pow2_less_iff)
  from 1 2 show ?thesis by simp
qed

lemma floor_log2_less: "0 < x \<Longrightarrow> x < 2 powi n \<Longrightarrow> floor_log2 x < n"
  using floor_log2_bounds(1)[of x] pow2_less_iff[of "floor_log2 x" n] by simp

lemma floor_log2_ge: "2 powi n \<le> x \<Longrightarrow> n \<le> floor_log2 x"
proof -
  assume a: "2 powi n \<le> x"
  have "(0::rat) < 2 powi n" by simp
  then have x: "0 < x" using a by (rule less_le_trans)
  have "(2::rat) powi n < 2 powi (floor_log2 x + 1)" using a floor_log2_bounds(2)[OF x] by simp
  then show ?thesis by (simp only: pow2_less_iff)
qed

lemma floor_log2_mono: "0 < x \<Longrightarrow> x \<le> y \<Longrightarrow> floor_log2 x \<le> floor_log2 y"
  using floor_log2_bounds(1)[of x] floor_log2_ge[of "floor_log2 x" y] by simp

lemma round_half_even_of_int: "round_half_even (of_int n) = n"
  by (simp add: round_half_even_def)

lemma round_half_even_floor: "\<lfloor>x\<rfloor> \<le> round_half_even x" "round_half_even x \<le> \<lfloor>x\<rfloor> + 1"
  by (simp_all add: round_half_even_def Let_def)

lemma round_half_even_mono:
  assumes "x \<le> y"
  shows "round_half_even x \<le> round_half_even y"
proof (cases "\<lfloor>x\<rfloor> = \<lfloor>y\<rfloor>")
  case True
  then show ?thesis using assms by (auto simp add: round_half_even_def Let_def)
next
  case False
  then have "\<lfloor>x\<rfloor> + 1 \<le> \<lfloor>y\<rfloor>" using floor_mono[OF assms] by simp
  then show ?thesis using round_half_even_floor(2)[of x] round_half_even_floor(1)[of y] by simp
qed

lemma round_half_even_uminus: "round_half_even (- x) = - round_half_even x"
proof (cases "x = of_int \<lfloor>x\<rfloor>")
  case True
  then obtain n where "x = of_int n" by metis
  then show ?thesis using round_half_even_of_int[of "- n"] round_half_even_of_int[of n] by simp
next
  case False
  then have lt: "of_int \<lfloor>x\<rfloor> < x" using of_int_floor_le[of x] by (simp add: less_le eq_commute)
  have "\<lfloor>- x\<rfloor> = - \<lfloor>x\<rfloor> - 1"
    using lt floor_correct[of x] by (intro floor_unique) auto
  then show ?thesis
    by (auto simp add: round_half_even_def Let_def)
qed

lemma ulp_exp_pos_eq: "0 < x \<Longrightarrow> ulp_exp x = max (floor_log2 x) (- 1022) - 52"
  by (simp add: ulp_exp_def)

lemma ulp_exp_mono: "0 < x \<Longrightarrow> x \<le> y \<Longrightarrow> ulp_exp x \<le> ulp_exp y"
  using floor_log2_mono[of x y] by (simp add: ulp_exp_pos_eq)

lemma rnd_fin_pos_eq:
  "0 < x \<Longrightarrow> rnd_fin x = of_int (round_half_even (x / 2 powi ulp_exp x)) * 2 powi ulp_exp x"
  by (simp add: rnd_fin_def)

lemma pow2_split: "(2::rat) powi (a + b) = 2 powi a * 2 powi b"
  by (simp add: power_int_add)

lemma rnd_fin_upper:
  assumes "0 < x"
  shows "rnd_fin x \<le> 2 powi (ulp_exp x + 53)"
proof -
  have u: "(0::rat) < 2 powi ulp_exp x" by simp
  have "floor_log2 x + 1 \<le> ulp_exp x + 53" using assms by (simp add: ulp_exp_pos_eq)
  then have "(2::rat) powi (floor_log2 x + 1) \<le> 2 powi (ulp_exp x + 53)"
    by (simp only: pow2_le_iff)
  with floor_log2_bounds(2)[OF assms] have "x \<le> 2 powi (ulp_exp x + 53)" by simp
  then have "x \<le> 2 powi ulp_exp x * 2 powi 53" by (simp only: pow2_split)
  then have "x / 2 powi ulp_exp x \<le> of_int (2 ^ 53)"
    using u by (simp add: pos_divide_le_eq mult.commute)
  from round_half_even_mono[OF this]
  have "round_half_even (x / 2 powi ulp_exp x) \<le> 2 ^ 53"
    by (simp only: round_half_even_of_int)
  then have "(of_int (round_half_even (x / 2 powi ulp_exp x)) :: rat) \<le> of_int (2 ^ 53)"
    by (simp only: of_int_le_iff)
  then have "rnd_fin x \<le> of_int (2 ^ 53) * 2 powi ulp_exp x"
    unfolding rnd_fin_pos_eq[OF assms] using u by (simp only: mult_le_cancel_right_pos)
  also have "\<dots> = 2 powi (ulp_exp x + 53)" by (simp add: pow2_split)
  finally show ?thesis .
qed

lemma rnd_fin_lower:
  assumes "0 < x" "- 1022 \<le> floor_log2 x"
  shows "2 powi (floor_log2 x) \<le> rnd_fin x"
proof -
  have u: "(0::rat) < 2 powi ulp_exp x" by simp
  have e: "floor_log2 x = ulp_exp x + 52" using assms by (simp add: ulp_exp_pos_eq)
  have "2 powi (ulp_exp x + 52) \<le> x" using floor_log2_bounds(1)[OF assms(1)] by (simp only: e)
  then have "2 powi ulp_exp x * 2 powi 52 \<le> x" by (simp only: pow2_split)
  then have "of_int (2 ^ 52) \<le> x / 2 powi ulp_exp x"
    using u by (simp add: pos_le_divide_eq mult.commute)
  from round_half_even_mono[OF this]
  have "2 ^ 52 \<le> round_half_even (x / 2 powi ulp_exp x)"
    by (simp only: round_half_even_of_int)
  then have "(of_int (2 ^ 52) :: rat) \<le> of_int (round_half_even (x / 2 powi ulp_exp x))"
    by (simp only: of_int_le_iff)
  then have "of_int (2 ^ 52) * 2 powi ulp_exp x \<le> rnd_fin x"
    unfolding rnd_fin_pos_eq[OF assms(1)] using u by (simp only: mult_le_cancel_right_pos)
  moreover have "of_int (2 ^ 52) * 2 powi ulp_exp x = (2::rat) powi (floor_log2 x)"
    by (simp add: e pow2_split)
  ultimately show ?thesis by simp
qed

lemma rnd_fin_nonneg:
  assumes "0 \<le> x"
  shows "0 \<le> rnd_fin x"
proof (cases "x = 0")
  case True
  then show ?thesis by (simp add: rnd_fin_def)
next
  case False
  then have x: "0 < x" using assms by simp
  have "(of_int 0 :: rat) \<le> x / 2 powi ulp_exp x" using x by simp
  from round_half_even_mono[OF this] have "0 \<le> round_half_even (x / 2 powi ulp_exp x)"
    by (simp only: round_half_even_of_int)
  then show ?thesis unfolding rnd_fin_pos_eq[OF x] by simp
qed

lemma rnd_fin_mono:
  assumes "0 \<le> x" "x \<le> y"
  shows "rnd_fin x \<le> rnd_fin y"
proof (cases "x = 0")
  case True
  then show ?thesis using rnd_fin_nonneg[of y] assms by (simp add: rnd_fin_def)
next
  case False
  then have x: "0 < x" using assms by simp
  then have y: "0 < y" using assms by simp
  show ?thesis
  proof (cases "ulp_exp x = ulp_exp y")
    case True
    have "x / 2 powi ulp_exp y \<le> y / 2 powi ulp_exp y"
      using assms(2) by (simp add: divide_right_mono)
    from round_half_even_mono[OF this] show ?thesis
      unfolding rnd_fin_pos_eq[OF x] rnd_fin_pos_eq[OF y] True
      by (simp add: mult_right_mono)
  next
    case False
    then have lt: "ulp_exp x < ulp_exp y" using ulp_exp_mono[OF x assms(2)] by simp
    then have fy: "- 1022 \<le> floor_log2 y" "floor_log2 y = ulp_exp y + 52"
      using x y by (auto simp add: ulp_exp_pos_eq)
    have "rnd_fin x \<le> 2 powi (ulp_exp x + 53)" by (rule rnd_fin_upper[OF x])
    also have "\<dots> \<le> 2 powi (floor_log2 y)" using lt fy(2) by (simp only: pow2_le_iff)
    also have "\<dots> \<le> rnd_fin y" by (rule rnd_fin_lower[OF y fy(1)])
    finally show ?thesis .
  qed
qed

lemma rnd_fin_exact:
  assumes "0 < m" "m < 2 ^ 53" "- 1074 \<le> e"
  shows "rnd_fin (of_int m * 2 powi e) = of_int m * 2 powi e"
proof -
  define x :: rat where "x = of_int m * 2 powi e"
  have x: "0 < x" using assms(1) by (simp add: x_def)
  have "(of_int m :: rat) < of_int (2 ^ 53)" using assms(2) by (simp only: of_int_less_iff)
  then have "of_int m * 2 powi e < (of_int (2 ^ 53) :: rat) * 2 powi e"
    by (rule mult_strict_right_mono) simp
  moreover have "(of_int (2 ^ 53) :: rat) = 2 powi 53" by simp
  ultimately have "x < 2 powi (53 + e)" by (simp only: pow2_split x_def)
  from floor_log2_less[OF x this] have "ulp_exp x \<le> e"
    using assms(3) x by (simp add: ulp_exp_pos_eq)
  then obtain k where k: "e = ulp_exp x + int k"
    by (metis zle_iff_zadd)
  define u :: rat where "u = 2 powi ulp_exp x"
  have u: "0 < u" by (simp add: u_def)
  have pe: "(2::rat) powi e = 2 powi int k * u"
    using pow2_split[of "ulp_exp x" "int k"] k by (simp add: u_def mult.commute)
  have xk: "x = of_int (m * 2 ^ k) * u" by (simp add: x_def pe)
  have "x / u = of_int (m * 2 ^ k)" using u by (simp add: xk)
  then have "round_half_even (x / u) = m * 2 ^ k"
    by (simp only: round_half_even_of_int)
  then have "rnd_fin x = of_int (m * 2 ^ k) * u"
    by (simp only: rnd_fin_pos_eq[OF x, folded u_def])
  then have "rnd_fin x = x" using xk by simp
  then show ?thesis by (simp only: x_def)
qed


lemma repr_less_pow2:
  assumes "m < 2 ^ 53" "e + 53 \<le> n"
  shows "of_int m * 2 powi e < (2::rat) powi n"
proof -
  have "(of_int m :: rat) < of_int (2 ^ 53)" using assms(1) by (simp only: of_int_less_iff)
  then have "of_int m * 2 powi e < (of_int (2 ^ 53) :: rat) * 2 powi e"
    by (rule mult_strict_right_mono) simp
  moreover have "(of_int (2 ^ 53) :: rat) = 2 powi 53" by simp
  ultimately have "of_int m * 2 powi e < (2::rat) powi (53 + e)" by (simp only: pow2_split)
  also have "\<dots> \<le> 2 powi n" using assms(2) by (simp only: pow2_le_iff)
  finally show ?thesis .
qed

lemma rnd_zero: "rnd 0 = Fin 0"
  by (simp add: rnd_def rnd_fin_def)

lemma rnd_pos_cases:
  assumes "0 < x"
  shows "rnd x = (if rnd_fin x = 0 then Fin 0
                  else if 1024 \<le> floor_log2 (rnd_fin x) then PInf else Fin (rnd_fin x))"
  using rnd_fin_nonneg[of x] assms by (auto simp: rnd_def Let_def)

lemma rnd_between:
  assumes lo: "0 < ml" "ml < 2 ^ 53" "- 1074 \<le> el" "of_int ml * 2 powi el \<le> x"
    and hi: "0 < mh" "mh < 2 ^ 53" "- 1074 \<le> eh" "eh \<le> 971" "x \<le> of_int mh * 2 powi eh"
  shows "\<exists>y. rnd x = Fin y \<and> of_int ml * 2 powi el \<le> y \<and> y \<le> of_int mh * 2 powi eh"
proof -
  have lpos: "(0::rat) < of_int ml * 2 powi el" using lo(1) by simp
  then have x: "0 < x" using lo(4) by simp
  have 1: "of_int ml * 2 powi el \<le> rnd_fin x"
    using rnd_fin_mono[of "of_int ml * 2 powi el" x] lpos lo(4) rnd_fin_exact[OF lo(1-3)] by simp
  have 2: "rnd_fin x \<le> of_int mh * 2 powi eh"
    using rnd_fin_mono[of x "of_int mh * 2 powi eh"] x hi(5) rnd_fin_exact[OF hi(1-3)] by simp
  have pos: "0 < rnd_fin x" using lpos 1 by simp
  have "of_int mh * 2 powi eh < (2::rat) powi 1024"
    using hi(2,4) by (intro repr_less_pow2) auto
  then have "rnd_fin x < 2 powi 1024" using 2 by simp
  from floor_log2_less[OF pos this] have "rnd x = Fin (rnd_fin x)"
    using pos by (simp add: rnd_pos_cases[OF x])
  then show ?thesis using 1 2 by blast
qed

lemma rnd_of_int_exact:
  assumes "0 \<le> n" "n < 2 ^ 53"
  shows "rnd (of_int n) = Fin (of_int n)"
proof (cases "n = 0")
  case True
  then show ?thesis by (simp add: rnd_zero)
next
  case False
  then have n: "0 < n" using assms by simp
  from rnd_between[of n 0 "of_int n" n 0] n assms(2)
  show ?thesis by auto
qed

lemma rnd_pos_sign:
  assumes "0 < x"
  shows "\<not> fsign (rnd x)" "\<not> is_nan (rnd x)"
  using rnd_fin_nonneg[of x] assms by (auto simp: rnd_pos_cases)

lemma floor_div_pos:
  fixes s :: rat and d :: int
  assumes "0 < d"
  shows "\<lfloor>s / of_int d\<rfloor> = \<lfloor>s\<rfloor> div d"
proof (rule floor_unique)
  have dpos: "(0::rat) < of_int d" using assms by simp
  have k: "of_int \<lfloor>s\<rfloor> \<le> s" "s < of_int \<lfloor>s\<rfloor> + 1" by linarith+
  have m: "\<lfloor>s\<rfloor> = d * (\<lfloor>s\<rfloor> div d) + \<lfloor>s\<rfloor> mod d" by simp
  have r: "0 \<le> \<lfloor>s\<rfloor> mod d" "\<lfloor>s\<rfloor> mod d < d" using assms by simp_all
  have "d * (\<lfloor>s\<rfloor> div d) \<le> \<lfloor>s\<rfloor>" using m r(1) by linarith
  then have "(of_int (d * (\<lfloor>s\<rfloor> div d)) :: rat) \<le> of_int \<lfloor>s\<rfloor>" by (simp only: of_int_le_iff)
  then have "of_int d * of_int (\<lfloor>s\<rfloor> div d) \<le> (of_int \<lfloor>s\<rfloor> :: rat)" by simp
  then have "of_int d * of_int (\<lfloor>s\<rfloor> div d) \<le> s" using k(1) by (rule order_trans)
  then show "of_int (\<lfloor>s\<rfloor> div d) \<le> s / of_int d"
    using dpos by (simp add: pos_le_divide_eq mult.commute)
  have "\<lfloor>s\<rfloor> + 1 \<le> d * (\<lfloor>s\<rfloor> div d) + d" using m r(2) by linarith
  then have "\<lfloor>s\<rfloor> + 1 \<le> d * (\<lfloor>s\<rfloor> div d + 1)" by (simp add: algebra_simps)
  then have "(of_int (\<lfloor>s\<rfloor> + 1) :: rat) \<le> of_int (d * (\<lfloor>s\<rfloor> div d + 1))" by (simp only: of_int_le_iff)
  then have "of_int \<lfloor>s\<rfloor> + 1 \<le> (of_int d :: rat) * (of_int (\<lfloor>s\<rfloor> div d) + 1)" by simp
  with k(2) have "s < of_int d * (of_int (\<lfloor>s\<rfloor> div d) + 1)" by (rule less_le_trans)
  then show "s / of_int d < of_int (\<lfloor>s\<rfloor> div d) + 1"
    using dpos by (simp add: pos_divide_less_eq mult.commute)
qed

lemma c_fmod_nonneg:
  assumes "0 \<le> s" "0 < d"
  shows "c_fmod (Fin s) (Fin d) = Fin (s - d * of_int \<lfloor>s / d\<rfloor>)"
  using assms by (simp add: c_fmod_def fzero_def Let_def)

lemma fsub_exact_int:
  assumes "0 \<le> a" "a - b = of_int n" "0 \<le> n" "n < 2 ^ 53"
  shows "fsub (Fin a) (Fin b) = Fin (of_int n)"
proof -
  have v: "fval (fneg (Fin b)) = - b" "\<not> is_nan (fneg (Fin b))" "\<not> is_inf (fneg (Fin b))"
    by simp_all
  have s: "a + - b = of_int n" using assms(2) by simp
  show ?thesis
  proof (cases "n = 0")
    case True
    then show ?thesis using assms(1) s v
      by (simp add: fsub_def fadd_def fzero_def del: fneg.simps)
  next
    case False
    then have "rnd (a + - b) = Fin (of_int n)" "a + - b \<noteq> 0"
      using rnd_of_int_exact[OF assms(3,4)] s by simp_all
    then show ?thesis using v by (simp add: fsub_def fadd_def del: fneg.simps)
  qed
qed

lemma c_div_exact_int:
  assumes "0 < d" "0 \<le> h" "h < 2 ^ 53"
  shows "c_div (Fin (of_int (d * h))) (Fin (of_int d)) = Fin (of_int h)"
proof (cases "h = 0")
  case True
  then show ?thesis using assms(1) by (simp add: c_div_def fzero_def)
next
  case False
  have "(of_int (d * h) :: rat) / of_int d = of_int h" using assms(1) by simp
  then show ?thesis using False assms rnd_of_int_exact[OF assms(2,3)]
    by (simp add: c_div_def del: of_int_mult)
qed

lemma float_floor_div_nonneg:
  assumes "0 \<le> s" "0 < d" "s < 2 ^ 53"
  shows "float_floor_div (Fin s) (Fin (of_int d)) = Inr (Fin (of_int (\<lfloor>s\<rfloor> div d)))"
proof -
  define h where "h = \<lfloor>s\<rfloor> div d"
  have dpos: "(0::rat) < of_int d" using assms(2) by simp
  have fl: "\<lfloor>s / of_int d\<rfloor> = h" using floor_div_pos[OF assms(2)] by (simp add: h_def)
  have k0: "0 \<le> \<lfloor>s\<rfloor>" using assms(1) by simp
  have h0: "0 \<le> h" unfolding h_def using k0 assms(2) by (simp add: pos_imp_zdiv_nonneg_iff)
  have "d * h \<le> \<lfloor>s\<rfloor>" unfolding h_def using assms(2)
    by (metis mult.commute div_mult_mod_eq le_add_same_cancel1 pos_mod_sign)
  then have dh_le: "(of_int (d * h) :: rat) \<le> s"
    by (meson le_floor_iff)
  have "(of_int (d * h)::rat) < of_int (2 ^ 53)" using dh_le assms(3) by simp
  then have dh53: "d * h < 2 ^ 53" by (simp only: of_int_less_iff)
  have "h \<le> d * h" using h0 assms(2) by (simp add: mult_le_cancel_right1)
  then have h53: "h < 2 ^ 53" using dh53 by simp
  define r where "r = s - of_int d * of_int h"
  have r0: "0 \<le> r" using dh_le by (simp add: r_def)
  have md: "c_fmod (Fin s) (Fin (of_int d)) = Fin r"
    using c_fmod_nonneg[OF assms(1) dpos] by (simp add: fl r_def)
  have sub: "fsub (Fin s) (Fin r) = Fin (of_int (d * h))"
    by (rule fsub_exact_int[OF assms(1)]) (use h0 assms(2) dh53 in \<open>simp_all add: r_def\<close>)
  have div0: "c_div (Fin (of_int (d * h))) (Fin (of_int d)) = Fin (of_int h)"
    by (rule c_div_exact_int[OF assms(2) h0 h53])
  have cond: "flt (Fin (of_int d)) (Fin 0) = flt (Fin r) (Fin 0)"
    using dpos r0 by (simp add: flt_def)
  have fl2: "c_floor (Fin (of_int h)) = Fin (of_int h)" by (simp add: c_floor_def)
  have sub2: "fsub (Fin (of_int h)) (Fin (of_int h)) = Fin 0"
    using fsub_exact_int[of "of_int h" "of_int h" 0] h0 by simp
  have half: "\<not> flt (Fin (1 / 2)) (Fin 0)" by (simp add: flt_def)
  have sgn: "\<not> fsign (c_div (Fin s) (Fin (of_int d)))"
  proof (cases "s = 0")
    case True
    then show ?thesis using dpos by (simp add: c_div_def fzero_def)
  next
    case False
    then have "0 < s / of_int d" using assms(1) dpos by simp
    from rnd_pos_sign(1)[OF this] show ?thesis using False dpos by (simp add: c_div_def)
  qed
  have nz: "is_zero (Fin (of_int d)) = False" using assms(2) by simp
  have "float_floor_div (Fin s) (Fin (of_int d)) = Inr (Fin (of_int h))"
    unfolding float_floor_div_def nz md sub div0 Let_def cond
    using half sgn by (simp add: fzero_def fl2 sub2)
  then show ?thesis by (simp only: h_def)
qed

lemma float_rem_nonneg:
  assumes "0 \<le> s" "0 < d"
  shows "float_rem (Fin s) (Fin (of_int d)) = Inr (Fin (s - of_int d * of_int (\<lfloor>s\<rfloor> div d)))"
proof -
  have dpos: "(0::rat) < of_int d" using assms(2) by simp
  have fl: "\<lfloor>s / of_int d\<rfloor> = \<lfloor>s\<rfloor> div d" using floor_div_pos[OF assms(2)] .
  define r where "r = s - of_int d * of_int (\<lfloor>s\<rfloor> div d)"
  have "of_int (\<lfloor>s / of_int d\<rfloor>) \<le> s / of_int d" by (rule of_int_floor_le)
  then have r0: "0 \<le> r" using dpos by (simp add: r_def fl pos_le_divide_eq mult.commute)
  have md: "c_fmod (Fin s) (Fin (of_int d)) = Fin r"
    using c_fmod_nonneg[OF assms(1) dpos] by (simp add: fl r_def)
  have cond: "flt (Fin (of_int d)) (Fin 0) = flt (Fin r) (Fin 0)"
    using dpos r0 by (simp add: flt_def)
  have nz: "is_zero (Fin (of_int d)) = False" using assms(2) by simp
  show ?thesis
    unfolding float_rem_def nz md Let_def cond
    using dpos by (auto simp add: fzero_def r_def[symmetric])
qed

lemma int_of_float_of_int: "int_of_float (Fin (of_int h)) = Inr h"
  by (simp add: int_of_float_def)

lemma int_of_float_nonneg: "0 \<le> q \<Longrightarrow> int_of_float (Fin q) = Inr \<lfloor>q\<rfloor>"
  by (simp add: int_of_float_def)

lemma floor_sub_of_int_mult:
  fixes s :: rat
  shows "\<lfloor>s - of_int d * of_int h\<rfloor> = \<lfloor>s\<rfloor> - d * h"
proof -
  have "s - of_int d * of_int h = s - of_int (d * h)" by simp
  then show ?thesis by (simp only: floor_diff_of_int)
qed

lemma hms_of_seconds:
  assumes tr: "int_truediv ms 1000 = Inr (Fin s)" and s: "0 \<le> s" "s < 2 ^ 53"
  shows "ms_to_hhmmss ms =
     Inr (format_02d (\<lfloor>s\<rfloor> div 3600) @ '':'' @ format_02d (\<lfloor>s\<rfloor> mod 3600 div 60) @ '':''
          @ format_02d (\<lfloor>s\<rfloor> mod 60))"
proof -
  define k where "k = \<lfloor>s\<rfloor>"
  have k0: "0 \<le> k" using s(1) by (simp add: k_def)
  have fd1: "float_floor_div (Fin s) (Fin 3600) = Inr (Fin (of_int (k div 3600)))"
    using float_floor_div_nonneg[OF s(1) _ s(2), of 3600] by (simp add: k_def)
  define r1 where "r1 = s - 3600 * of_int (k div 3600)"
  have rem1: "float_rem (Fin s) (Fin 3600) = Inr (Fin r1)"
    using float_rem_nonneg[OF s(1), of 3600] by (simp add: k_def r1_def)
  have fr1: "\<lfloor>r1\<rfloor> = k mod 3600"
    using floor_sub_of_int_mult[of s 3600 "k div 3600"]
    by (simp add: r1_def k_def[symmetric] minus_mult_div_eq_mod)
  have "0 \<le> k mod 3600" by simp
  then have r10: "0 \<le> r1" using fr1 by (metis zero_le_floor)
  have "r1 \<le> s" using k0 by (simp add: r1_def pos_imp_zdiv_nonneg_iff)
  then have r153: "r1 < 2 ^ 53" using s(2) by simp
  have fd2: "float_floor_div (Fin r1) (Fin 60) = Inr (Fin (of_int (k mod 3600 div 60)))"
    using float_floor_div_nonneg[OF r10 _ r153, of 60] by (simp add: fr1)
  define r2 where "r2 = s - 60 * of_int (k div 60)"
  have rem2: "float_rem (Fin s) (Fin 60) = Inr (Fin r2)"
    using float_rem_nonneg[OF s(1), of 60] by (simp add: k_def r2_def)
  have fr2: "\<lfloor>r2\<rfloor> = k mod 60"
    using floor_sub_of_int_mult[of s 60 "k div 60"]
    by (simp add: r2_def k_def[symmetric] minus_mult_div_eq_mod)
  have "0 \<le> k mod 60" by simp
  then have r20: "0 \<le> r2" using fr2 by (metis zero_le_floor)
  have i3: "int_of_float (Fin r2) = Inr (k mod 60)"
    using int_of_float_nonneg[OF r20] by (simp add: fr2)
  show ?thesis
    unfolding ms_to_hhmmss_def tr
    by (simp add: bnd_def fd1 rem1 fd2 rem2 i3 int_of_float_of_int k_def[symmetric])
qed

lemma int_truediv_1000_low:
  assumes "0 \<le> ms" "ms < 2 ^ 43 * 1000"
  shows "\<exists>s. int_truediv ms 1000 = Inr (Fin s) \<and> 0 \<le> s \<and> s < 2 ^ 53 \<and> \<lfloor>s\<rfloor> = ms div 1000"
proof (cases "ms = 0")
  case True
  then show ?thesis by (simp add: int_truediv_def fzero_def)
next
  case False
  then have ms: "0 < ms" using assms(1) by simp
  define k where "k = ms div 1000"
  define x :: rat where "x = of_int ms / of_int 1000"
  have k0: "0 \<le> k" using assms(1) by (simp add: k_def pos_imp_zdiv_nonneg_iff)
  have k43: "k < 2 ^ 43" using assms(2) unfolding k_def by simp
  define rr where "rr = ms mod 1000"
  have msk: "ms = 1000 * k + rr" by (simp add: k_def rr_def)
  have r: "0 \<le> rr" "rr \<le> 999" by (simp_all add: rr_def)
  have xlo: "of_int k \<le> x"
  proof -
    have "1000 * k \<le> ms" using msk r(1) by linarith
    then have "(of_int (1000 * k) :: rat) \<le> of_int ms" by (simp only: of_int_le_iff)
    then show ?thesis by (simp add: x_def)
  qed
  have xhi: "x \<le> of_int (1024 * k + 1023) * 2 powi (- 10)"
  proof -
    have "1024 * rr \<le> 1023000" using r(2) by simp
    then have "1024 * ms \<le> 1000 * (1024 * k + 1023)" unfolding msk by simp
    then have "(of_int (1024 * ms) :: rat) \<le> of_int (1000 * (1024 * k + 1023))"
      by (simp only: of_int_le_iff)
    then show ?thesis by (simp add: x_def field_simps)
  qed
  have xlo2: "of_int 1 * 2 powi (- 10) \<le> x"
  proof -
    have "1000 \<le> 1024 * ms" using ms by simp
    then have "(of_int 1000 :: rat) \<le> of_int (1024 * ms)" by (simp only: of_int_le_iff)
    then show ?thesis by (simp add: x_def field_simps)
  qed
  have mh: "0 < 1024 * k + 1023" "1024 * k + 1023 < 2 ^ 53" using k0 k43 by simp_all
  have "\<exists>y. rnd x = Fin y \<and> 0 < y \<and> of_int k \<le> y \<and> y \<le> of_int (1024 * k + 1023) * 2 powi (- 10)"
  proof (cases "k = 0")
    case True
    from rnd_between[of 1 "- 10" x "1024 * k + 1023" "- 10"] xlo2 xhi mh
    obtain y where y: "rnd x = Fin y" "of_int 1 * 2 powi (- 10) \<le> y"
      "y \<le> of_int (1024 * k + 1023) * 2 powi (- 10)" by auto
    have "0 < y" using y(2) by simp
    then show ?thesis using y True by auto
  next
    case False
    then have kpos: "0 < k" using k0 by simp
    have "k < 2 ^ 53" using k43 by simp
    from rnd_between[of k 0 x "1024 * k + 1023" "- 10"] xlo xhi mh kpos this
    obtain y where y: "rnd x = Fin y" "of_int k \<le> y"
      "y \<le> of_int (1024 * k + 1023) * 2 powi (- 10)" by auto
    have "0 < y" using y(2) kpos by simp
    then show ?thesis using y by auto
  qed
  then obtain y where y: "rnd x = Fin y" "0 < y" "of_int k \<le> y"
    "y \<le> of_int (1024 * k + 1023) * 2 powi (- 10)" by blast
  have "of_int (1024 * k + 1023) * 2 powi (- 10) < (of_int k :: rat) + 1"
    by (simp add: field_simps)
  then have ylt: "y < of_int k + 1" using y(4) by simp
  have fl: "\<lfloor>y\<rfloor> = k" using y(3) ylt by (intro floor_unique) auto
  have "k + 1 \<le> 2 ^ 43" using k43 by simp
  then have "(of_int (k + 1) :: rat) \<le> of_int (2 ^ 43)" by (simp only: of_int_le_iff)
  then have "(of_int k :: rat) + 1 \<le> 2 ^ 43" by simp
  then have "y < 2 ^ 53" using ylt by simp
  moreover have "int_truediv ms 1000 = Inr (Fin y)"
    using False y(1) by (simp add: int_truediv_def x_def)
  ultimately show ?thesis using y(2) fl by (auto simp: k_def)
qed

lemma round_half_even_add_small:
  assumes "0 \<le> t" "t < 1 / 2"
  shows "round_half_even (of_int N + t) = N"
proof -
  have "\<lfloor>of_int N + t\<rfloor> = N" using assms by (intro floor_unique) auto
  then show ?thesis using assms by (simp add: round_half_even_def)
qed

lemma int_truediv_1000_high:
  assumes "2 ^ 43 * 1000 \<le> ms" "ms < 2 ^ 44 * 1000"
  shows "\<exists>s. int_truediv ms 1000 = Inr (Fin s) \<and> 0 \<le> s \<and> s < 2 ^ 53 \<and> \<lfloor>s\<rfloor> = ms div 1000"
proof -
  define k where "k = ms div 1000"
  define x :: rat where "x = of_int ms / of_int 1000"
  define rr where "rr = ms mod 1000"
  have ms0: "ms \<noteq> 0" using assms(1) by simp
  have klo: "2 ^ 43 \<le> k" using assms(1) unfolding k_def by simp
  have khi: "k < 2 ^ 44" using assms(2) unfolding k_def by simp
  have msk: "ms = 1000 * k + rr" by (simp add: k_def rr_def)
  have r: "0 \<le> rr" "rr \<le> 999" by (simp_all add: rr_def)
  have xlo: "of_int k \<le> x"
  proof -
    have "1000 * k \<le> ms" using msk r(1) by linarith
    then have "(of_int (1000 * k) :: rat) \<le> of_int ms" by (simp only: of_int_le_iff)
    then show ?thesis by (simp add: x_def)
  qed
  have x512: "x * 512 \<le> of_int (512 * k + 511) + 61 / 125"
  proof -
    have "64000 * rr \<le> 63936000" using r(2) by simp
    then have "64000 * ms \<le> 125000 * (512 * k + 511) + 61000" unfolding msk by simp
    then have "(of_int (64000 * ms) :: rat) \<le> of_int (125000 * (512 * k + 511) + 61000)"
      by (simp only: of_int_le_iff)
    then show ?thesis by (simp add: x_def field_simps)
  qed
  have "(of_int (2 ^ 43) :: rat) \<le> of_int k" using klo by (simp only: of_int_le_iff)
  then have p43: "2 powi 43 \<le> x" using xlo by simp
  have x0: "0 < x" using p43 by simp
  have "512 * k + 512 \<le> 512 * 2 ^ 44" using khi by simp
  then have "(of_int (512 * k + 512) :: rat) \<le> of_int (512 * 2 ^ 44)" by (simp only: of_int_le_iff)
  then have k1: "(of_int k :: rat) + 1 \<le> 2 ^ 44" by simp
  have xk1: "x < of_int k + 1"
  proof -
    have "x * 512 < (of_int k + 1) * 512" using x512 by (simp add: algebra_simps)
    then show ?thesis by simp
  qed
  have p44: "x < 2 powi (43 + 1)" using xk1 k1 by simp
  have fl: "floor_log2 x = 43" by (rule floor_log2_eqI[OF p43 p44])
  have ue: "ulp_exp x = - 9" using x0 by (simp add: ulp_exp_pos_eq fl)
  have q: "x / 2 powi ulp_exp x = x * 512" by (simp add: ue)
  have "round_half_even (x * 512) \<le> round_half_even (of_int (512 * k + 511) + 61 / 125)"
    by (rule round_half_even_mono[OF x512])
  also have "\<dots> = 512 * k + 511" by (rule round_half_even_add_small) simp_all
  finally have "(of_int (round_half_even (x * 512)) :: rat) \<le> of_int (512 * k + 511)"
    by (simp only: of_int_le_iff)
  then have "rnd_fin x \<le> of_int (512 * k + 511) * 2 powi (- 9)"
    unfolding rnd_fin_pos_eq[OF x0] q ue by (intro mult_right_mono) simp_all
  also have "\<dots> < of_int k + 1" by (simp add: field_simps)
  finally have yhi: "rnd_fin x < of_int k + 1" .
  have k53: "0 < k" "k < 2 ^ 53" using klo khi by simp_all
  have ylo: "of_int k \<le> rnd_fin x"
    using rnd_fin_mono[of "of_int k" x] xlo k53(1) rnd_fin_exact[of k 0] k53(2) by simp
  have y0: "0 < rnd_fin x" using ylo k53(1) by simp
  have "rnd_fin x < 2 ^ 44" using yhi k1 by simp
  also have "(2::rat) ^ 44 < 2 powi 1024" using pow2_less_iff[of 44 1024] by simp
  finally have "floor_log2 (rnd_fin x) < 1024" using floor_log2_less[OF y0] by simp
  then have "rnd x = Fin (rnd_fin x)" using y0 by (simp add: rnd_pos_cases[OF x0])
  then have "int_truediv ms 1000 = Inr (Fin (rnd_fin x))"
    using ms0 by (simp add: int_truediv_def x_def)
  moreover have "\<lfloor>rnd_fin x\<rfloor> = k" using ylo yhi by (intro floor_unique) auto
  moreover have "rnd_fin x < 2 ^ 53" using yhi k1 by simp
  ultimately show ?thesis using y0 by (auto simp: k_def)
qed

lemma int_truediv_1000:
  assumes "0 \<le> ms" "ms < 2 ^ 44 * 1000"
  shows "\<exists>s. int_truediv ms 1000 = Inr (Fin s) \<and> 0 \<le> s \<and> s < 2 ^ 53 \<and> \<lfloor>s\<rfloor> = ms div 1000"
proof (cases "ms < 2 ^ 43 * 1000")
  case True
  then show ?thesis using int_truediv_1000_low[OF assms(1)] by simp
next
  case False
  then show ?thesis using int_truediv_1000_high[of ms] assms(2) by simp
qed

lemma hms_sum: "(k::int) div 3600 * 3600 + k mod 3600 div 60 * 60 + k mod 60 = k"
proof -
  have "k mod 3600 mod 60 = k mod 60" by (simp add: mod_mod_cancel)
  moreover have "k mod 3600 = k mod 3600 div 60 * 60 + k mod 3600 mod 60" by simp
  moreover have "k = k div 3600 * 3600 + k mod 3600" by simp
  ultimately show ?thesis by linarith
qed


lemma round_half_even_bounds:
  assumes "0 < x"
  shows "0 \<le> round_half_even (x / 2 powi ulp_exp x)"
    and "round_half_even (x / 2 powi ulp_exp x) \<le> 2 ^ 53"
proof -
  have u: "(0::rat) < 2 powi ulp_exp x" by simp
  have "(of_int 0 :: rat) \<le> x / 2 powi ulp_exp x" using assms by simp
  from round_half_even_mono[OF this] show "0 \<le> round_half_even (x / 2 powi ulp_exp x)"
    by (simp only: round_half_even_of_int)
  have "floor_log2 x + 1 \<le> ulp_exp x + 53" using assms by (simp add: ulp_exp_pos_eq)
  then have "(2::rat) powi (floor_log2 x + 1) \<le> 2 powi (ulp_exp x + 53)"
    by (simp only: pow2_le_iff)
  with floor_log2_bounds(2)[OF assms] have "x \<le> 2 powi (ulp_exp x + 53)" by simp
  then have "x \<le> 2 powi ulp_exp x * 2 powi 53" by (simp only: pow2_split)
  then have "x / 2 powi ulp_exp x \<le> of_int (2 ^ 53)"
    using u by (simp add: pos_divide_le_eq mult.commute)
  from round_half_even_mono[OF this]
  show "round_half_even (x / 2 powi ulp_exp x) \<le> 2 ^ 53"
    by (simp only: round_half_even_of_int)
qed

lemma ulp_exp_ge: "- 1074 \<le> ulp_exp x"
  by (simp add: ulp_exp_def)

lemma rnd_fin_idem_pos:
  assumes "0 < x"
  shows "rnd_fin (rnd_fin x) = rnd_fin x"
proof -
  define n where "n = round_half_even (x / 2 powi ulp_exp x)"
  have y: "rnd_fin x = of_int n * 2 powi ulp_exp x" by (simp add: rnd_fin_pos_eq[OF assms] n_def)
  have n: "0 \<le> n" "n \<le> 2 ^ 53" using round_half_even_bounds[OF assms] by (simp_all add: n_def)
  consider "n = 0" | "0 < n" "n < 2 ^ 53" | "n = 2 ^ 53" using n by linarith
  then show ?thesis
  proof cases
    case 1
    then have z: "rnd_fin x = 0" by (simp add: y)
    show ?thesis unfolding z by (simp add: rnd_fin_def)
  next
    case 2
    then show ?thesis unfolding y by (intro rnd_fin_exact ulp_exp_ge)
  next
    case 3
    have "of_int n * 2 powi ulp_exp x = of_int (2 ^ 52) * (2::rat) powi (ulp_exp x + 1)"
      by (simp add: 3 pow2_split)
    moreover have "rnd_fin (of_int (2 ^ 52) * 2 powi (ulp_exp x + 1)) = of_int (2 ^ 52) * 2 powi (ulp_exp x + 1)"
      using ulp_exp_ge[of x] by (intro rnd_fin_exact) auto
    ultimately show ?thesis unfolding y by simp
  qed
qed

lemma ulp_exp_uminus: "ulp_exp (- x) = ulp_exp x"
  by (simp add: ulp_exp_def)

lemma rnd_fin_uminus: "rnd_fin (- x) = - rnd_fin x"
  by (simp add: rnd_fin_def ulp_exp_uminus round_half_even_uminus)

lemma rnd_fin_idem: "rnd_fin (rnd_fin x) = rnd_fin x"
proof -
  consider "x = 0" | "0 < x" | "x < 0" by linarith
  then show ?thesis
  proof cases
    case 1
    then show ?thesis by (simp add: rnd_fin_def)
  next
    case 2
    then show ?thesis by (rule rnd_fin_idem_pos)
  next
    case 3
    then have "rnd_fin (rnd_fin (- x)) = rnd_fin (- x)" by (intro rnd_fin_idem_pos) simp
    then show ?thesis by (simp add: rnd_fin_uminus)
  qed
qed

lemma rnd_Fin_eq:
  assumes "rnd x = Fin y"
  shows "y = rnd_fin x"
  using assms by (auto simp: rnd_def Let_def split: if_splits)


lemma is_double_rnd: "is_double (rnd x)"
proof (cases "rnd x")
  case (Fin y)
  have y: "y = rnd_fin x" using rnd_Fin_eq[OF Fin] .
  have idem: "rnd_fin y = y" by (simp add: y rnd_fin_idem)
  have "rnd y = Fin y"
  proof (cases "y = 0")
    case True
    then show ?thesis by (simp add: rnd_zero)
  next
    case False
    then have "\<not> 1024 \<le> floor_log2 \<bar>y\<bar>" using Fin
      by (auto simp: rnd_def Let_def y split: if_splits)
    then show ?thesis using False by (simp add: rnd_def Let_def idem)
  qed
  then show ?thesis by (simp add: Fin is_double_def)
qed (simp_all add: is_double_def)

lemma is_double_of_int: "\<bar>n\<bar> < 2 ^ 53 \<Longrightarrow> is_double (Fin (of_int n))"
proof -
  assume a: "\<bar>n\<bar> < 2 ^ 53"
  show ?thesis
  proof (cases "0 \<le> n")
    case True
    then show ?thesis using a rnd_of_int_exact[of n] by (simp add: is_double_def)
  next
    case False
    then have n: "0 < - n" "- n < 2 ^ 53" using a by simp_all
    from rnd_between[of "- n" 0 "of_int (- n)" "- n" 0] n
    have p: "rnd (of_int (- n)) = Fin (of_int (- n))" by auto
    have "rnd_fin (of_int (- n)) = of_int (- n)" using rnd_Fin_eq[OF p] by simp
    then have f: "rnd_fin (of_int n) = of_int n" using rnd_fin_uminus[of "of_int n"] by simp
    have "\<not> 1024 \<le> floor_log2 \<bar>rnd_fin (of_int (- n))\<bar>" using p n
      by (auto simp: rnd_def Let_def split: if_splits)
    then have "\<not> 1024 \<le> floor_log2 \<bar>rnd_fin (of_int n :: rat)\<bar>"
      using rnd_fin_uminus[of "of_int n"] by simp
    then show ?thesis using False f by (simp add: is_double_def rnd_def Let_def)
  qed
qed

lemma is_double_posD:
  assumes "is_double (Fin q)" "0 < q"
  shows "rnd_fin q = q" "q < 2 powi 1024"
proof -
  have r: "rnd q = Fin q" using assms(1) by (simp add: is_double_def)
  show 1: "rnd_fin q = q" using rnd_Fin_eq[OF r] by simp
  have "\<not> 1024 \<le> floor_log2 q" using r assms(2) 1 by (auto simp: rnd_pos_cases split: if_splits)
  then have "floor_log2 q + 1 \<le> 1024" by simp
  then have "(2::rat) powi (floor_log2 q + 1) \<le> 2 powi 1024" by (simp only: pow2_le_iff)
  with floor_log2_bounds(2)[OF assms(2)] show "q < 2 powi 1024" by simp
qed

lemma rnd_between_fix:
  assumes "0 < lo" "rnd_fin lo = lo" "lo \<le> x" "x \<le> hi" "rnd_fin hi = hi" "hi < 2 powi 1024"
  shows "\<exists>y. rnd x = Fin y \<and> lo \<le> y \<and> y \<le> hi"
proof -
  have x: "0 < x" using assms(1,3) by simp
  have 1: "lo \<le> rnd_fin x" using rnd_fin_mono[of lo x] assms(1,2,3) by simp
  have 2: "rnd_fin x \<le> hi" using rnd_fin_mono[of x hi] x assms(4,5) by simp
  have pos: "0 < rnd_fin x" using assms(1) 1 by simp
  have "rnd_fin x < 2 powi 1024" using 2 assms(6) by simp
  from floor_log2_less[OF pos this] have "rnd x = Fin (rnd_fin x)"
    using pos by (simp add: rnd_pos_cases[OF x])
  then show ?thesis using 1 2 by blast
qed

lemma rnd_fin_pow2: "- 1074 \<le> e \<Longrightarrow> rnd_fin (2 powi e) = 2 powi e"
  using rnd_fin_exact[of 1 e] by simp

lemma rnd_between_gen:
  assumes "0 < lo" "rnd_fin lo = lo" "lo \<le> x" "x \<le> hi" "rnd_fin hi < 2 powi 1024"
  shows "\<exists>y. rnd x = Fin y \<and> y = rnd_fin x \<and> lo \<le> y \<and> y \<le> rnd_fin hi"
proof -
  have x: "0 < x" using assms(1,3) by simp
  have 1: "lo \<le> rnd_fin x" using rnd_fin_mono[of lo x] assms(1,2,3) by simp
  have 2: "rnd_fin x \<le> rnd_fin hi" using rnd_fin_mono[of x hi] x assms(4) by simp
  have pos: "0 < rnd_fin x" using assms(1) 1 by simp
  have "rnd_fin x < 2 powi 1024" using 2 assms(5) by simp
  from floor_log2_less[OF pos this] have "rnd x = Fin (rnd_fin x)"
    using pos by (simp add: rnd_pos_cases[OF x])
  then show ?thesis using 1 2 by blast
qed

lemma rnd_fin_max_plus_one:
  "rnd_fin (of_int (2 ^ 53 - 1) * 2 powi 971 + 1) = of_int (2 ^ 53 - 1) * 2 powi 971"
proof -
  define u :: rat where "u = 2 powi 971"
  define x :: rat where "x = of_int (2 ^ 53 - 1) * u + 1"
  have u: "0 < u" "1 < u" unfolding u_def using pow2_less_iff[of 0 971] by simp_all
  have x: "0 < x" using u(1) by (simp add: x_def)
  have p1023: "(2::rat) powi 1023 = of_int (2 ^ 52) * u"
    using pow2_split[of 52 971] by (simp add: u_def)
  have p1024: "(2::rat) powi (1023 + 1) = of_int (2 ^ 53) * u"
    using pow2_split[of 53 971] by (simp add: u_def)
  have "(of_int (2 ^ 52) :: rat) \<le> of_int (2 ^ 53 - 1)" by (simp only: of_int_le_iff) simp
  then have "of_int (2 ^ 52) * u \<le> of_int (2 ^ 53 - 1) * u"
    using u(1) by (simp only: mult_le_cancel_right_pos)
  then have lo: "2 powi 1023 \<le> x" unfolding p1023 x_def by simp
  have "of_int (2 ^ 53) * u = of_int (2 ^ 53 - 1) * u + u" by (simp add: algebra_simps)
  then have hi: "x < 2 powi (1023 + 1)" unfolding p1024 x_def using u(2) by simp
  have fl: "floor_log2 x = 1023" by (rule floor_log2_eqI[OF lo hi])
  have ue: "ulp_exp x = 971" using x by (simp add: ulp_exp_pos_eq fl)
  have inv: "1 / u = 2 powi (- 971)" by (simp add: u_def power_int_minus_divide)
  have small: "(2::rat) powi (- 971) < 1 / 2"
    using pow2_less_iff[of "- 971" "- 1"] by simp
  have "x / 2 powi ulp_exp x = x / u" by (simp only: ue u_def)
  also have "\<dots> = of_int (2 ^ 53 - 1) + 1 / u" using u(1) by (simp add: x_def add_divide_distrib)
  also have "\<dots> = of_int (2 ^ 53 - 1) + 2 powi (- 971)" by (simp only: inv)
  finally have e: "x / 2 powi ulp_exp x = of_int (2 ^ 53 - 1) + 2 powi (- 971)" .
  have nn: "(0::rat) \<le> 2 powi (- 971)" by (rule zero_le_power_int) simp
  have "round_half_even (x / 2 powi ulp_exp x) = 2 ^ 53 - 1"
    unfolding e by (rule round_half_even_add_small[OF nn small])
  then have "rnd_fin x = of_int (2 ^ 53 - 1) * 2 powi ulp_exp x"
    by (simp only: rnd_fin_pos_eq[OF x])
  then have "rnd_fin x = of_int (2 ^ 53 - 1) * 2 powi 971" by (simp only: ue)
  then show ?thesis unfolding x_def u_def .
qed

lemma max_double_less: "of_int (2 ^ 53 - 1) * (2::rat) powi 971 < 2 powi 1024"
  by (rule repr_less_pow2) auto

lemma is_double_le_max:
  assumes "is_double (Fin q)" "0 < q"
  shows "q \<le> of_int (2 ^ 53 - 1) * 2 powi 971"
proof -
  note d = is_double_posD[OF assms]
  define n where "n = round_half_even (q / 2 powi ulp_exp q)"
  have q: "q = of_int n * 2 powi ulp_exp q"
    using rnd_fin_pos_eq[OF assms(2)] d(1) by (simp add: n_def)
  have n: "n \<le> 2 ^ 53" using round_half_even_bounds(2)[OF assms(2)] by (simp add: n_def)
  have "floor_log2 q < 1024" using floor_log2_less[OF assms(2) d(2)] .
  then have ue: "ulp_exp q \<le> 971" using assms(2) by (simp add: ulp_exp_pos_eq)
  show ?thesis
  proof (cases "ulp_exp q = 971")
    case True
    have "of_int n * (2::rat) powi 971 < of_int (2 ^ 53) * 2 powi 971"
      using d(2) q True pow2_split[of 53 971] by simp
    then have "(of_int n :: rat) < of_int (2 ^ 53)" by (simp only: mult_less_cancel_right_pos zero_less_power_int zero_less_numeral)
    then have "n < 2 ^ 53" by (simp only: of_int_less_iff)
    then have "n \<le> 2 ^ 53 - 1" by simp
    then have "(of_int n :: rat) \<le> of_int (2 ^ 53 - 1)" by (simp only: of_int_le_iff)
    then have "of_int n * (2::rat) powi 971 \<le> of_int (2 ^ 53 - 1) * 2 powi 971"
      by (intro mult_right_mono) simp_all
    then show ?thesis using q True by simp
  next
    case False
    then have "ulp_exp q + 1 \<le> 971" using ue by simp
    then have le: "(2::rat) powi (ulp_exp q + 1) \<le> 2 powi 971" by (simp only: pow2_le_iff)
    have "(of_int n :: rat) \<le> of_int (2 ^ 53)" using n by (simp only: of_int_le_iff)
    then have "of_int n * (2::rat) powi ulp_exp q \<le> of_int (2 ^ 53) * 2 powi ulp_exp q"
      by (intro mult_right_mono) simp_all
    also have "\<dots> = of_int (2 ^ 52) * 2 powi (ulp_exp q + 1)" by (simp add: pow2_split)
    also have "\<dots> \<le> of_int (2 ^ 52) * 2 powi 971" using le by (intro mult_left_mono) simp_all
    also have "\<dots> \<le> of_int (2 ^ 53 - 1) * 2 powi 971" by (intro mult_right_mono) simp_all
    finally show ?thesis using q by simp
  qed
qed

lemma is_double_gt_one:
  assumes "is_double (Fin q)" "1 < q"
  shows "1 + 2 powi (- 52) \<le> q"
proof -
  have q0: "0 < q" using assms(2) by simp
  note d = is_double_posD[OF assms(1) q0]
  define n where "n = round_half_even (q / 2 powi ulp_exp q)"
  have q: "q = of_int n * 2 powi ulp_exp q"
    using rnd_fin_pos_eq[OF q0] d(1) by (simp add: n_def)
  have "0 \<le> floor_log2 q" using floor_log2_ge[of 0 q] assms(2) by simp
  then have "- 52 \<le> ulp_exp q" using q0 by (simp add: ulp_exp_pos_eq)
  then obtain k where k: "ulp_exp q = - 52 + int k" by (metis zle_iff_zadd)
  have q2: "q = of_int (n * 2 ^ k) * 2 powi (- 52)"
    using q pow2_split[of "- 52" "int k"] by (simp add: k)
  have "of_int (2 ^ 52) * (2::rat) powi (- 52) = 1" by simp
  then have "of_int (2 ^ 52) * (2::rat) powi (- 52) < of_int (n * 2 ^ k) * 2 powi (- 52)"
    using assms(2) q2 by simp
  then have "(of_int (2 ^ 52) :: rat) < of_int (n * 2 ^ k)"
    by (simp only: mult_less_cancel_right_pos zero_less_power_int zero_less_numeral)
  then have "2 ^ 52 < n * 2 ^ k" by (simp only: of_int_less_iff)
  then have "2 ^ 52 + 1 \<le> n * 2 ^ k" by simp
  then have "(of_int (2 ^ 52 + 1) :: rat) \<le> of_int (n * 2 ^ k)" by (simp only: of_int_le_iff)
  then have "of_int (2 ^ 52 + 1) * (2::rat) powi (- 52) \<le> of_int (n * 2 ^ k) * 2 powi (- 52)"
    by (intro mult_right_mono) simp_all
  moreover have "of_int (2 ^ 52 + 1) * (2::rat) powi (- 52) = 1 + 2 powi (- 52)" by simp
  ultimately show ?thesis using q2 by simp
qed

lemma is_double_simps [simp]:
  "is_double NegZero" "is_double PInf" "is_double NInf" "is_double NaN" "is_double (Fin 0)"
  "is_double (Fin 1)"
  using is_double_of_int[of 0] is_double_of_int[of 1] by (simp_all add: is_double_def)

lemma parse_float_body_double: "parse_float_body s = Some w \<Longrightarrow> is_double w"
  by (auto simp: parse_float_body_def Let_def finf_def fzero_def is_double_rnd
      split: prod.splits if_splits option.splits list.splits)

lemma py_float_is_double:
  assumes "wf_pyval x" "py_float x = Inr w"
  shows "is_double w"
proof (cases x)
  case (PyInt n)
  then show ?thesis using assms(2) is_double_rnd[of "of_int n"]
    by (auto simp: float_of_int_def split: pyfloat.splits)
next
  case (PyStr s)
  then show ?thesis using assms(2) parse_float_body_double
    by (auto simp: py_float_str_def split: option.splits)
qed (use assms in \<open>auto simp: wf_pyval_def\<close>)

lemma flt_zero_cases:
  assumes "flt (Fin 0) w"
  shows "w = PInf \<or> (\<exists>q. w = Fin q \<and> 0 < q)"
  using assms by (cases w) (auto simp: flt_def)

lemma flt_one_cases:
  assumes "flt (Fin 1) w"
  shows "w = PInf \<or> (\<exists>q. w = Fin q \<and> 1 < q)"
  using assms by (cases w) (auto simp: flt_def)

lemma flt_not_fle: "flt a b \<Longrightarrow> \<not> fle b a"
  by (cases a; cases b) (auto simp: flt_def fle_def)

lemma fmul_const_pos:
  assumes "is_double (Fin q)" "0 < q" "1 \<le> c"
  shows "fmul (Fin q) (Fin c) = PInf \<or> (\<exists>y. fmul (Fin q) (Fin c) = Fin y \<and> 0 < y)"
proof -
  note d = is_double_posD[OF assms(1,2)]
  have x: "0 < q * c" using assms(2,3) by simp
  have "q \<le> q * c" using assms(2,3) by simp
  then have "q \<le> rnd_fin (q * c)" using rnd_fin_mono[of q "q * c"] assms(2) d(1) by simp
  then have pos: "0 < rnd_fin (q * c)" using assms(2) by simp
  have "q \<noteq> 0" "c \<noteq> 0" using assms(2,3) by simp_all
  then have "fmul (Fin q) (Fin c) = rnd (q * c)" by (simp add: fmul_def)
  then show ?thesis using pos by (auto simp: rnd_pos_cases[OF x])
qed

lemma math_log10_pos:
  assumes "w = PInf \<or> (\<exists>y. w = Fin y \<and> 0 < y)"
  shows "\<exists>l. math_log10 L w = Inr l"
  using assms by (auto simp: math_log10_def)


lemma vswr_quotient_parts:
  assumes "is_double (Fin v)" "1 < v"
  shows "\<exists>a b y. a = rnd_fin (v - 1) \<and> b = rnd_fin (v + 1) \<and> 0 < a \<and> 0 < b
           \<and> rnd (a / b) = Fin y \<and> 0 < y
           \<and> fdiv (fsub (Fin v) (Fin 1)) (fadd (Fin v) (Fin 1)) = Inr (Fin y)"
proof -
  have v0: "0 < v" using assms(2) by simp
  note d = is_double_posD[OF assms(1) v0]
  note ge = is_double_gt_one[OF assms]
  note le = is_double_le_max[OF assms(1) v0]
  have p52: "(0::rat) < 2 powi (- 52)" by simp
  have "\<exists>a. rnd (v - 1) = Fin a \<and> a = rnd_fin (v - 1) \<and> 2 powi (- 52) \<le> a \<and> a \<le> rnd_fin v"
    by (rule rnd_between_gen[OF p52 rnd_fin_pow2]) (use ge d in simp_all)
  then obtain a where a: "rnd (v - 1) = Fin a" "a = rnd_fin (v - 1)" "2 powi (- 52) \<le> a" "a \<le> v"
    using d(1) by auto
  have a0: "0 < a" using a(3) p52 by simp
  have sub: "fsub (Fin v) (Fin 1) = Fin a"
    using assms(2) a(1) by (simp add: fsub_def fadd_def)
  define M :: rat where "M = of_int (2 ^ 53 - 1) * 2 powi 971"
  have M: "v \<le> M" "rnd_fin (M + 1) = M" "M < 2 powi 1024"
    unfolding M_def using le rnd_fin_max_plus_one max_double_less by blast+
  have lo2: "(0::rat) < 2 powi 1" "2 powi 1 \<le> v + 1" "v + 1 \<le> M + 1"
    using assms(2) M(1) by simp_all
  have mx: "rnd_fin (M + 1) < 2 powi 1024" using M(2,3) by (simp only:)
  have "\<exists>b. rnd (v + 1) = Fin b \<and> b = rnd_fin (v + 1) \<and> 2 powi 1 \<le> b \<and> b \<le> rnd_fin (M + 1)"
    by (rule rnd_between_gen[OF lo2(1) rnd_fin_pow2 lo2(2,3) mx]) simp
  then obtain b where b: "rnd (v + 1) = Fin b" "b = rnd_fin (v + 1)" "2 \<le> b" "b \<le> M"
    using M(2) by auto
  have b0: "0 < b" using b(3) by simp
  have b1024: "b < 2 powi 1024" using b(4) M(3) by (rule le_less_trans)
  have add: "fadd (Fin v) (Fin 1) = Fin b"
    using v0 b(1) by (simp add: fadd_def)
  have ida: "rnd_fin a = a" by (simp add: a(2) rnd_fin_idem)
  have hi: "a / b \<le> a" using a0 b(3) by (simp add: field_simps)
  have a1024: "rnd_fin a < 2 powi 1024" using ida a(4) d(2) by simp
  have "\<exists>lo. 0 < lo \<and> rnd_fin lo = lo \<and> lo \<le> a / b"
  proof (cases "v \<le> 3")
    case True
    then have "v + 1 \<le> 2 powi 2" by simp
    from rnd_fin_mono[OF _ this] v0 have "b \<le> 2 powi 2"
      using rnd_fin_pow2[of 2] by (simp add: b(2))
    then have s1: "a / (2 powi 2) \<le> a / b" using a0 b0 by (intro divide_left_mono) simp_all
    have "(2::rat) powi (- 54) = 2 powi (- 52) / 2 powi 2"
      using power_int_diff[of "2::rat" "- 52" 2] by simp
    also have "\<dots> \<le> a / (2 powi 2)"
      using a(3) by (intro divide_right_mono) simp_all
    also note s1
    finally have "2 powi (- 54) \<le> a / b" .
    moreover have "rnd_fin (2 powi (- 54)) = 2 powi (- 54)" by (rule rnd_fin_pow2) simp
    moreover have "(0::rat) < 2 powi (- 54)" by simp
    ultimately show ?thesis by blast
  next
    case False
    then have "2 powi 1 \<le> v - 1" by simp
    from rnd_fin_mono[OF _ this] have a2: "2 powi 1 \<le> a"
      using rnd_fin_pow2[of 1] by (simp add: a(2))
    have s1: "2 powi 1 / b \<le> a / b" using a2 b0 by (intro divide_right_mono) simp_all
    have "(2::rat) powi (- 1023) = 2 powi 1 / 2 powi 1024"
      using power_int_diff[of "2::rat" 1 1024] by simp
    also have "\<dots> \<le> 2 powi 1 / b"
      using b0 b1024 by (intro divide_left_mono) simp_all
    also note s1
    finally have "2 powi (- 1023) \<le> a / b" .
    moreover have "rnd_fin (2 powi (- 1023)) = 2 powi (- 1023)" by (rule rnd_fin_pow2) simp
    moreover have "(0::rat) < 2 powi (- 1023)" by (rule zero_less_power_int) simp
    ultimately show ?thesis by blast
  qed
  then obtain lo where lo: "0 < lo" "rnd_fin lo = lo" "lo \<le> a / b" by blast
  from rnd_between_gen[OF lo hi a1024] obtain y where y: "rnd (a / b) = Fin y" "lo \<le> y" by blast
  have "c_div (Fin a) (Fin b) = Fin y" using a0 b0 y(1) by (simp add: c_div_def)
  then have "fdiv (Fin a) (Fin b) = Inr (Fin y)" using b0 by (simp add: fdiv_def)
  then have q: "fdiv (fsub (Fin v) (Fin 1)) (fadd (Fin v) (Fin 1)) = Inr (Fin y)"
    by (simp only: sub add)
  have "0 < y" using lo(1) y(2) by simp
  then show ?thesis using a(2) b(2) a0 b0 y(1) q by blast
qed

lemma vswr_quotient_fin:
  assumes "is_double (Fin v)" "1 < v"
  shows "\<exists>y. fdiv (fsub (Fin v) (Fin 1)) (fadd (Fin v) (Fin 1)) = Inr (Fin y) \<and> 0 < y"
  using vswr_quotient_parts[OF assms] by blast

lemma vswr_quotient:
  assumes "is_double w" "flt (Fin 1) w"
  shows "\<exists>q l. fdiv (fsub w (Fin 1)) (fadd w (Fin 1)) = Inr q \<and> math_log10 L q = Inr l"
proof -
  from flt_one_cases[OF assms(2)] consider "w = PInf" | v where "w = Fin v" "1 < v" by blast
  then show ?thesis
  proof cases
    case 1
    then show ?thesis by (simp add: fsub_def fadd_def fdiv_def c_div_def math_log10_def)
  next
    case 2
    from vswr_quotient_fin[of v] assms(1) 2 obtain y where
      "fdiv (fsub (Fin v) (Fin 1)) (fadd (Fin v) (Fin 1)) = Inr (Fin y)" "0 < y" by auto
    then show ?thesis using 2 by (auto simp: math_log10_def)
  qed
qed


lemma try_except_total: "\<not> isl (try_except body dflt)"
  by (simp add: try_except_def split: sum.splits)

lemma helpers_total:
  "\<not> isl (watts_to_dbm L x)" "\<not> isl (vswr_to_return_loss L x)"
  "\<not> isl (vswr_to_return_loss_batch L x)" "\<not> isl (band_selection b)"
  by (simp_all add: watts_to_dbm_def vswr_to_return_loss_def vswr_to_return_loss_batch_def
      band_selection_def try_except_total)

lemma helpers_not_Inl:
  "watts_to_dbm L x \<noteq> Inl e" "vswr_to_return_loss L x \<noteq> Inl e"
  "vswr_to_return_loss_batch L x \<noteq> Inl e" "band_selection b \<noteq> Inl e"
  using helpers_total(1)[of L x] helpers_total(2)[of L x] helpers_total(3)[of L x]
    helpers_total(4)[of b] by auto

lemma bnd_Inr_iff: "bnd m f = Inr y \<longleftrightarrow> (\<exists>v. m = Inr v \<and> f v = Inr y)"
  by (cases m) (simp_all add: bnd_def)

lemma bnd_isl_iff: "isl (bnd m f) \<longleftrightarrow> isl m \<or> (\<exists>v. m = Inr v \<and> isl (f v))"
  by (cases m) (simp_all add: bnd_def)

lemma not_isl_Inr: "\<not> isl m \<longleftrightarrow> (\<exists>v. m = Inr v)"
  by (cases m) simp_all

lemma batch_body_raises_iff:
  "isl (batch_body L t1 q s) \<longleftrightarrow> \<not> batch_replies_convert q"
  by (auto simp add: batch_body_def batch_replies_convert_def bnd_def Let_def helpers_not_Inl
      split: sum.splits)

lemma batch_body_step:
  assumes "batch_body L t1 q s = Inr s'"
  shows "\<exists>row. file_rows s' = file_rows s @ [row]" "elapsed_time s' = fsub (b_time q) t1"
  using assms by (auto simp add: batch_body_def bnd_Inr_iff Let_def split: if_splits)

lemma fetch_readings_raises:
  assumes "\<not> gui_replies_convert q" "\<not> isl (fetch_int (syst_tim_1 q))"
  shows "isl (fetch_readings L q t)"
  using assms
  by (auto simp add: fetch_readings_def gui_replies_convert_def bnd_def helpers_not_Inl
      split: sum.splits)

lemma update_readings_raises:
  assumes "\<not> gui_replies_convert q"
  shows "\<exists>e s'. update_readings L q s = (Inl e, s') \<and> csv_rows s' = csv_rows s"
proof (cases "fetch_int (syst_tim_1 q)")
  case (Inl e)
  then show ?thesis by (simp add: update_readings_def Let_def)
next
  case (Inr t)
  then have "isl (fetch_readings L q t)" using fetch_readings_raises[OF assms] by simp
  then obtain e where "fetch_readings L q t = Inl e" by (cases "fetch_readings L q t") auto
  then show ?thesis using Inr
    by (cases "ms_to_hhmmss t") (simp_all add: update_readings_def Let_def)
qed




lemma batch_tick_ok_iff: "batch_tick_ok L t1 q \<longleftrightarrow> \<not> isl (batch_body L t1 q s)"
  by (simp add: batch_tick_ok_def batch_body_raises_iff)

lemma batch_loop_not_in_time:
  "\<not> flt (elapsed_time s) log_duration \<Longrightarrow> batch_loop L t1 qs s = (Completed, s)"
  by (cases qs) simp_all

lemma batch_loop_count:
  assumes "flt (elapsed_time s) log_duration"
  shows "length (file_rows (snd (batch_loop L t1 qs s)))
           = length (file_rows s) + completed_iterations L t1 qs
       \<and> (fst (batch_loop L t1 qs s) = Completed \<longleftrightarrow>
            length (takeWhile (in_time t1) (takeWhile (batch_tick_ok L t1) qs))
              < length (takeWhile (batch_tick_ok L t1) qs))"
  using assms
proof (induction qs arbitrary: s)
  case Nil
  then show ?case by (simp add: completed_iterations_def)
next
  case (Cons q qs)
  show ?case
  proof (cases "batch_body L t1 q s")
    case (Inl e)
    then have "\<not> batch_tick_ok L t1 q" using batch_tick_ok_iff[of L t1 q s] by simp
    then show ?thesis using Inl Cons.prems by (simp add: completed_iterations_def)
  next
    case (Inr s1)
    then have ok: "batch_tick_ok L t1 q" using batch_tick_ok_iff[of L t1 q s] by simp
    from batch_body_step[OF Inr] obtain row where
      s1: "file_rows s1 = file_rows s @ [row]" "elapsed_time s1 = fsub (b_time q) t1" by blast
    show ?thesis
    proof (cases "in_time t1 q")
      case True
      then have "flt (elapsed_time s1) log_duration" by (simp add: s1(2) in_time_def)
      from Cons.IH[OF this] show ?thesis
        using Inr ok True Cons.prems s1(1) by (simp add: completed_iterations_def Let_def)
    next
      case False
      then have "\<not> flt (elapsed_time s1) log_duration" by (simp add: s1(2) in_time_def)
      from batch_loop_not_in_time[OF this] show ?thesis
        using Inr ok False Cons.prems s1(1) by (simp add: completed_iterations_def Let_def)
    qed
  qed
qed

lemma batch_init_in_time: "flt (elapsed_time batch_init) log_duration"
  by (simp add: batch_init_def log_duration_def flt_def)

lemma batch_main_eq:
  "file_rows (snd (batch_main L t1 qs)) = file_rows (snd (batch_loop L t1 qs batch_init))"
  "fst (batch_main L t1 qs) = fst (batch_loop L t1 qs batch_init)"
  by (auto simp add: batch_main_def split: prod.splits outcome.splits)

lemma ms_to_hhmmss_ok:
  assumes "0 \<le> ms" "ms < 2 ^ 44 * 1000"
  shows "\<exists>str. ms_to_hhmmss ms = Inr str"
proof -
  from int_truediv_1000[OF assms] obtain x where
    x: "int_truediv ms 1000 = Inr (Fin x)" "0 \<le> x" "x < 2 ^ 53" by blast
  from hms_of_seconds[OF x] show ?thesis by blast
qed

lemma takeWhile_prefix_nth:
  assumes "j < length (takeWhile P xs)"
  shows "P (xs ! j)" "j < length xs"
proof -
  have "takeWhile P xs ! j \<in> set (takeWhile P xs)" using assms by simp
  then show "P (xs ! j)" using set_takeWhileD takeWhile_nth[OF assms] by metis
  show "j < length xs" using assms length_takeWhile_le[of P xs] by simp
qed

lemma batch_rows_eq:
  "length (file_rows (snd (batch_main L t1 qs))) = 1 + completed_iterations L t1 qs"
  using batch_loop_count[OF batch_init_in_time, of L t1 qs]
  by (simp add: batch_main_eq batch_init_def)

lemma batch_completed_iff:
  "fst (batch_main L t1 qs) = Completed \<longleftrightarrow>
     length (takeWhile (in_time t1) (takeWhile (batch_tick_ok L t1) qs))
       < length (takeWhile (batch_tick_ok L t1) qs)"
  using batch_loop_count[OF batch_init_in_time, of L t1 qs] by (simp add: batch_main_eq)


lemma fetch_float_examples:
  "fetch_float (Inr ''0'') = Inr (Fin 0)" "fetch_float (Inr ''abc'') = Inl ValueError"
  by code_simp+

lemma fetch_int_examples:
  "fetch_int (Inr ''1000'') = Inr 1000" "fetch_int (Inr ''0'') = Inr 0"
  by code_simp+

lemma in_time_examples:
  "in_time (Fin 0) \<lparr> b_forw = f, b_refl = r, b_vswr = v, b_temp = t, b_time = Fin 1 \<rparr>"
  "\<not> in_time (Fin 0) \<lparr> b_forw = f, b_refl = r, b_vswr = v, b_temp = t, b_time = Fin 2000 \<rparr>"
  using rnd_of_int_exact[of 1] rnd_of_int_exact[of 2000]
  by (simp_all add: in_time_def fsub_def fadd_def flt_def log_duration_def)


lemma ms_to_hhmmss_one_second: "ms_to_hhmmss 1000 = Inr ''00:00:01''"
proof -
  have tr: "int_truediv 1000 1000 = Inr (Fin 1)" by code_simp
  have f: "format_02d 0 = ''00''" "format_02d 1 = ''01''"
    by (simp_all add: format_02d_def zero_pad_def digit_char_def)
  have "ms_to_hhmmss 1000 = Inr (format_02d 0 @ '':'' @ format_02d 0 @ '':'' @ format_02d 1)"
    using hms_of_seconds[OF tr] by simp
  then show ?thesis by (simp add: f)
qed


















section \<open>Watts to dBm\<close>

text \<open>
  Claim C1. For every input of \<^verbatim>\<open>watts_to_dbm\<close>: when the conversion to float fails, or
  gives a float less than or equal to 0, the result is the sentinel \<^verbatim>\<open>'N/A'\<close>; when it
  gives a positive float \<open>W\<close>, the logarithm does not raise and the result is
  \<open>10 * log10 (W * 1000)\<close>, computed in binary64 arithmetic, formatted to two decimals.
\<close>

theorem watts_to_dbm_cases:
  assumes "wf_pyval x"
  shows "(\<forall>e. py_float x = Inl e \<longrightarrow> watts_to_dbm L x = Inr (PyStr ''N/A''))
       \<and> (\<forall>w. py_float x = Inr w \<and> fle w (Fin 0) \<longrightarrow> watts_to_dbm L x = Inr (PyStr ''N/A''))
       \<and> (\<forall>w. py_float x = Inr w \<and> flt (Fin 0) w \<longrightarrow>
            (\<exists>l. math_log10 L (fmul w (Fin 1000)) = Inr l
                 \<and> watts_to_dbm L x = Inr (PyStr (format_f 2 (fmul (Fin 10) l)))))"
proof (intro conjI allI impI)
  fix e assume "py_float x = Inl e"
  then show "watts_to_dbm L x = Inr (PyStr ''N/A'')"
    by (simp add: watts_to_dbm_def try_except_def bnd_def)
next
  fix w assume "py_float x = Inr w \<and> fle w (Fin 0)"
  then show "watts_to_dbm L x = Inr (PyStr ''N/A'')"
    by (simp add: watts_to_dbm_def try_except_def bnd_def)
next
  fix w assume a: "py_float x = Inr w \<and> flt (Fin 0) w"
  then have dw: "is_double w" using py_float_is_double[OF assms] by simp
  have nle: "\<not> fle w (Fin 0)" using a flt_not_fle by simp
  have "fmul w (Fin 1000) = PInf \<or> (\<exists>y. fmul w (Fin 1000) = Fin y \<and> 0 < y)"
  proof -
    from flt_zero_cases[of w] a consider "w = PInf" | q where "w = Fin q" "0 < q" by blast
    then show ?thesis
    proof cases
      case 1
      then show ?thesis by (simp add: fmul_def finf_def)
    next
      case 2
      then show ?thesis using fmul_const_pos[of q 1000] dw by simp
    qed
  qed
  from math_log10_pos[OF this] obtain l where l: "math_log10 L (fmul w (Fin 1000)) = Inr l" ..
  then show "\<exists>l. math_log10 L (fmul w (Fin 1000)) = Inr l
                 \<and> watts_to_dbm L x = Inr (PyStr (format_f 2 (fmul (Fin 10) l)))"
    using a nle by (simp add: watts_to_dbm_def try_except_def bnd_def)
qed

theorem watts_to_dbm_cases_witness:
  "wf_pyval (PyFloat (Fin 1)) \<and> py_float (PyFloat (Fin 1)) = Inr (Fin 1) \<and> flt (Fin 0) (Fin 1)
   \<and> (\<exists>l. math_log10 (\<lambda>q. 3) (fmul (Fin 1) (Fin 1000)) = Inr l
          \<and> watts_to_dbm (\<lambda>q. 3) (PyFloat (Fin 1)) = Inr (PyStr (format_f 2 (fmul (Fin 10) l))))"
  using watts_to_dbm_cases[of "PyFloat (Fin 1)" "\<lambda>q. 3"]
  by (simp add: wf_pyval_def flt_def)

section \<open>VSWR to return loss\<close>

text \<open>
  Claim C2. For every VSWR input that converts to a float \<open>v\<close>: when \<open>v \<le> 1\<close> the
  monitor's \<^verbatim>\<open>vswr_to_return_loss\<close> returns \<^verbatim>\<open>'0'\<close> and the batch logger's returns the
  float \<^verbatim>\<open>9.999e+37\<close>; when \<open>v > 1\<close> neither the quotient nor the logarithm raises, and
  both functions return \<open>-20 * log10 ((v - 1) / (v + 1))\<close>, computed in binary64
  arithmetic, formatted to two decimals.
\<close>

theorem vswr_to_return_loss_cases:
  assumes "wf_pyval x"
  shows "(\<forall>v. py_float x = Inr v \<and> fle v (Fin 1) \<longrightarrow>
            vswr_to_return_loss L x = Inr (PyStr ''0'')
          \<and> vswr_to_return_loss_batch L x = Inr (PyFloat sentinel))
       \<and> (\<forall>v. py_float x = Inr v \<and> flt (Fin 1) v \<longrightarrow>
            (\<exists>q l. fdiv (fsub v (Fin 1)) (fadd v (Fin 1)) = Inr q \<and> math_log10 L q = Inr l
                 \<and> vswr_to_return_loss L x = Inr (PyStr (format_f 2 (fmul (Fin (- 20)) l)))
                 \<and> vswr_to_return_loss_batch L x = Inr (PyStr (format_f 2 (fmul (Fin (- 20)) l)))))"
proof (intro conjI allI impI)
  fix v assume a: "py_float x = Inr v \<and> fle v (Fin 1)"
  then show "vswr_to_return_loss L x = Inr (PyStr ''0'')"
    by (simp add: vswr_to_return_loss_def try_except_def bnd_def)
  from a show "vswr_to_return_loss_batch L x = Inr (PyFloat sentinel)"
    by (simp add: vswr_to_return_loss_batch_def try_except_def bnd_def)
next
  fix v assume a: "py_float x = Inr v \<and> flt (Fin 1) v"
  then have dv: "is_double v" using py_float_is_double[OF assms] by simp
  have nle: "\<not> fle v (Fin 1)" using a flt_not_fle by simp
  from vswr_quotient[OF dv, of L] a obtain q l where
    ql: "fdiv (fsub v (Fin 1)) (fadd v (Fin 1)) = Inr q" "math_log10 L q = Inr l" by blast
  then show "\<exists>q l. fdiv (fsub v (Fin 1)) (fadd v (Fin 1)) = Inr q \<and> math_log10 L q = Inr l
                 \<and> vswr_to_return_loss L x = Inr (PyStr (format_f 2 (fmul (Fin (- 20)) l)))
                 \<and> vswr_to_return_loss_batch L x = Inr (PyStr (format_f 2 (fmul (Fin (- 20)) l)))"
    using a nle
    by (simp add: vswr_to_return_loss_def vswr_to_return_loss_batch_def try_except_def bnd_def)
qed

theorem vswr_to_return_loss_cases_witness:
  "wf_pyval (PyFloat (Fin 1)) \<and> py_float (PyFloat (Fin 1)) = Inr (Fin 1) \<and> fle (Fin 1) (Fin 1)
   \<and> vswr_to_return_loss (\<lambda>q. 0) (PyFloat (Fin 1)) = Inr (PyStr ''0'')
   \<and> vswr_to_return_loss_batch (\<lambda>q. 0) (PyFloat (Fin 1)) = Inr (PyFloat sentinel)"
  using vswr_to_return_loss_cases[of "PyFloat (Fin 1)" "\<lambda>q. 0"]
  by (simp add: wf_pyval_def fle_def)

section \<open>Conversion failures\<close>

text \<open>
  Claim C3, as amended. The helper functions \<^verbatim>\<open>watts_to_dbm\<close>, \<^verbatim>\<open>vswr_to_return_loss\<close> (of
  both scripts) and \<^verbatim>\<open>band_selection\<close> never raise, and replace a failed conversion of
  their argument by their placeholder (\<^verbatim>\<open>'N/A'\<close>, or \<^verbatim>\<open>9.999e+37\<close> in the batch logger).
  The conversions of the instrument replies in the two loop bodies are not guarded: a
  reply that \<^verbatim>\<open>float\<close> or \<^verbatim>\<open>int\<close> rejects makes the conversion raise; in the monitor an
  iteration with a reply that does not convert raises out of \<^verbatim>\<open>update_readings\<close> and
  writes no row; in the batch logger the loop body raises exactly when one of its four
  replies does not convert.
\<close>

theorem conversion_failures:
  "(\<exists>r. watts_to_dbm L x = Inr r) \<and> (\<exists>r. vswr_to_return_loss L x = Inr r)
   \<and> (\<exists>r. vswr_to_return_loss_batch L x = Inr r) \<and> (\<exists>r. band_selection x = Inr r)
   \<and> (\<forall>e. py_float x = Inl e \<longrightarrow>
         watts_to_dbm L x = Inr (PyStr ''N/A'') \<and> vswr_to_return_loss L x = Inr (PyStr ''N/A'')
         \<and> vswr_to_return_loss_batch L x = Inr (PyFloat sentinel))
   \<and> (\<forall>e. py_float_str (str_strip txt) = Inl e \<longrightarrow> fetch_float (Inr txt) = Inl e)
   \<and> (\<forall>e. py_int_str txt = Inl e \<longrightarrow> fetch_int (Inr txt) = Inl e)
   \<and> (\<not> gui_replies_convert q \<longrightarrow>
         (\<exists>e s'. update_readings L q s = (Inl e, s') \<and> csv_rows s' = csv_rows s))
   \<and> (isl (batch_body L t1 b bs) \<longleftrightarrow> \<not> batch_replies_convert b)"
proof -
  have 1: "(\<exists>r. watts_to_dbm L x = Inr r) \<and> (\<exists>r. vswr_to_return_loss L x = Inr r)
   \<and> (\<exists>r. vswr_to_return_loss_batch L x = Inr r) \<and> (\<exists>r. band_selection x = Inr r)"
    using helpers_total(1)[of L x] helpers_total(2)[of L x] helpers_total(3)[of L x]
      helpers_total(4)[of x] by (simp add: not_isl_Inr)
  have 2: "\<forall>e. py_float x = Inl e \<longrightarrow>
         watts_to_dbm L x = Inr (PyStr ''N/A'') \<and> vswr_to_return_loss L x = Inr (PyStr ''N/A'')
         \<and> vswr_to_return_loss_batch L x = Inr (PyFloat sentinel)"
    by (simp add: watts_to_dbm_def vswr_to_return_loss_def vswr_to_return_loss_batch_def
        try_except_def bnd_def)
  have 3: "\<forall>e. py_float_str (str_strip txt) = Inl e \<longrightarrow> fetch_float (Inr txt) = Inl e"
    by (simp add: fetch_float_def bnd_def)
  have 4: "\<forall>e. py_int_str txt = Inl e \<longrightarrow> fetch_int (Inr txt) = Inl e"
    by (simp add: fetch_int_def bnd_def)
  have 5: "\<not> gui_replies_convert q \<longrightarrow>
         (\<exists>e s'. update_readings L q s = (Inl e, s') \<and> csv_rows s' = csv_rows s)"
    using update_readings_raises[of q L s] by blast
  have 6: "isl (batch_body L t1 b bs) \<longleftrightarrow> \<not> batch_replies_convert b"
    by (rule batch_body_raises_iff)
  from 1 2 3 4 5 6 show ?thesis by blast
qed

theorem conversion_failures_witness:
  "py_float PyNone = Inl TypeError
   \<and> watts_to_dbm (\<lambda>q. 0) PyNone = Inr (PyStr ''N/A'')
   \<and> vswr_to_return_loss_batch (\<lambda>q. 0) PyNone = Inr (PyFloat sentinel)
   \<and> py_float_str (str_strip ''abc'') = Inl ValueError
   \<and> fetch_float (Inr ''abc'') = Inl ValueError
   \<and> py_int_str ''abc'' = Inl ValueError
   \<and> fetch_int (Inr ''abc'') = Inl ValueError
   \<and> \<not> gui_replies_convert
         \<lparr> syst_tim_1 = Inr ''1000'', fetc_forw = Inr ''abc'', fetc_refl = Inr ''0'',
           fetc_vswr = Inr ''0'', fetc_temp = Inr ''0'', syst_tim_2 = Inr ''1000'',
           meas_band = Inr ''0'' \<rparr>
   \<and> (\<exists>e s'. update_readings (\<lambda>q. 0)
         \<lparr> syst_tim_1 = Inr ''1000'', fetc_forw = Inr ''abc'', fetc_refl = Inr ''0'',
           fetc_vswr = Inr ''0'', fetc_temp = Inr ''0'', syst_tim_2 = Inr ''1000'',
           meas_band = Inr ''0'' \<rparr> gui_init = (Inl e, s')
         \<and> csv_rows s' = csv_rows gui_init)"
proof -
  have a: "py_float_str (str_strip ''abc'') = Inl ValueError" by code_simp
  have b: "py_int_str ''abc'' = Inl ValueError" by code_simp
  have c: "\<not> gui_replies_convert
         \<lparr> syst_tim_1 = Inr ''1000'', fetc_forw = Inr ''abc'', fetc_refl = Inr ''0'',
           fetc_vswr = Inr ''0'', fetc_temp = Inr ''0'', syst_tim_2 = Inr ''1000'',
           meas_band = Inr ''0'' \<rparr>"
    by (simp add: gui_replies_convert_def fetch_float_examples)
  show ?thesis
    using conversion_failures[of "\<lambda>q. 0" PyNone "''abc''"
        "\<lparr> syst_tim_1 = Inr ''1000'', fetc_forw = Inr ''abc'', fetc_refl = Inr ''0'',
           fetc_vswr = Inr ''0'', fetc_temp = Inr ''0'', syst_tim_2 = Inr ''1000'',
           meas_band = Inr ''0'' \<rparr>" gui_init] a b c
    by simp
qed

text \<open>
  As stated for the loop bodies the claim fails. With the forward-power reply \<^verbatim>\<open>abc\<close> the
  monitor's \<^verbatim>\<open>update_readings\<close> raises \<^verbatim>\<open>ValueError\<close> after it has set the iteration and
  system-time labels, and writes no row; the batch logger's loop raises \<^verbatim>\<open>ValueError\<close> in
  its first iteration, before any row is written. The logarithm is not reached in either
  run, so the function standing for it does not matter.
\<close>

theorem unguarded_conversion_raises:
  "update_readings id
     \<lparr> syst_tim_1 = Inr ''1000'', fetc_forw = Inr ''abc'', fetc_refl = Inr ''0'',
       fetc_vswr = Inr ''0'', fetc_temp = Inr ''0'', syst_tim_2 = Inr ''1000'',
       meas_band = Inr ''0'' \<rparr> gui_init
   = (Inl ValueError,
      gui_init\<lparr> i_count := 1, iteration_var := PyStr ''1'',
                system_time_var := PyStr ''00:00:01'' \<rparr>)
   \<and> batch_main id (Fin 0)
       [\<lparr> b_forw = Inr ''abc'', b_refl = Inr ''0'', b_vswr = Inr ''0'', b_temp = Inr ''0'',
          b_time = Fin 1 \<rparr>]
     = (Raised ValueError, batch_init)"
proof -
  have s: "str_int 1 = ''1''" by (simp add: str_int_def digit_char_def)
  have g: "fetch_readings id
     \<lparr> syst_tim_1 = Inr ''1000'', fetc_forw = Inr ''abc'', fetc_refl = Inr ''0'',
       fetc_vswr = Inr ''0'', fetc_temp = Inr ''0'', syst_tim_2 = Inr ''1000'',
       meas_band = Inr ''0'' \<rparr> 1000 = Inl ValueError"
    by (simp add: fetch_readings_def fetch_float_examples bnd_def)
  have b: "batch_body id (Fin 0)
       \<lparr> b_forw = Inr ''abc'', b_refl = Inr ''0'', b_vswr = Inr ''0'', b_temp = Inr ''0'',
          b_time = Fin 1 \<rparr> batch_init = Inl ValueError"
    by (simp add: batch_body_def fetch_float_examples bnd_def)
  have t: "flt (elapsed_time batch_init) log_duration" by (rule batch_init_in_time)
  show ?thesis
    by (simp add: update_readings_def Let_def fetch_int_examples ms_to_hhmmss_one_second g s
        gui_init_def batch_main_def b t)
qed


section \<open>Band code to label\<close>

text \<open>
  Claim C4. Band code 1 gives the high-band label, band code 0 the low-band label, and
  every input that compares equal to neither returns normally (no exception) with no
  label, that is, with \<^verbatim>\<open>None\<close>.
\<close>

theorem band_selection_labels:
  "band_selection (PyInt 1) = Inr (PyStr ''High Band 25 to 1000 MHz'')
   \<and> band_selection (PyInt 0) = Inr (PyStr ''Low Band 2 to 30 MHz'')
   \<and> (\<forall>b. \<not> py_eq_int b 1 \<and> \<not> py_eq_int b 0 \<longrightarrow> band_selection b = Inr PyNone)
   \<and> (\<forall>b. \<exists>v. band_selection b = Inr v)"
  by (simp add: band_selection_def try_except_def)

theorem band_selection_labels_witness:
  "\<not> py_eq_int (PyInt 2) 1 \<and> \<not> py_eq_int (PyInt 2) 0 \<and> band_selection (PyInt 2) = Inr PyNone"
  using band_selection_labels by simp

section \<open>Monotonicity of watts to dBm\<close>



section \<open>Monotonicity of the return loss\<close>





section \<open>Rows and iterations\<close>


section \<open>Duration of the batch loop\<close>

text \<open>
  Claim C8. The duration \<^verbatim>\<open>log_duration\<close> is 1800 seconds. With \<open>n\<close> the number of data
  rows of a run: every iteration before the last one measured an elapsed time strictly
  below 1800 seconds (the loop went on only because of that); when the loop has
  terminated, its last iteration measured an elapsed time that is not below 1800
  seconds; and as soon as an iteration measures such an elapsed time the loop
  terminates with the rows written so far: later readings add nothing.
\<close>

theorem batch_loop_duration:
  "log_duration = Fin 1800
   \<and> (let n = length (file_rows (snd (batch_main L t1 qs))) - 1
      in n \<le> length qs
       \<and> (\<forall>j. Suc j < n \<longrightarrow> in_time t1 (qs ! j))
       \<and> (fst (batch_main L t1 qs) = Completed \<longrightarrow> 0 < n \<and> \<not> in_time t1 (qs ! (n - 1)))
       \<and> (\<forall>m. m < length qs \<and> (\<forall>j\<le>m. batch_tick_ok L t1 (qs ! j))
              \<and> (\<forall>j<m. in_time t1 (qs ! j)) \<and> \<not> in_time t1 (qs ! m)
             \<longrightarrow> fst (batch_main L t1 qs) = Completed \<and> n = Suc m))"
proof -
  define oks where "oks = takeWhile (batch_tick_ok L t1) qs"
  define tw where "tw = takeWhile (in_time t1) oks"
  define n where "n = length (file_rows (snd (batch_main L t1 qs))) - 1"
  have n: "n = min (length oks) (Suc (length tw))"
    by (simp add: n_def batch_rows_eq completed_iterations_def oks_def tw_def Let_def)
  have comp: "fst (batch_main L t1 qs) = Completed \<longleftrightarrow> length tw < length oks"
    by (simp add: batch_completed_iff oks_def tw_def)
  have oks_nth: "oks ! j = qs ! j" "j < length qs" if "j < length oks" for j
    using that takeWhile_nth[of j "batch_tick_ok L t1" qs]
      takeWhile_prefix_nth(2)[of j "batch_tick_ok L t1" qs] by (simp_all add: oks_def)
  have 1: "n \<le> length qs"
    using length_takeWhile_le[of "batch_tick_ok L t1" qs] by (simp add: n oks_def)
  have 2: "in_time t1 (qs ! j)" if "Suc j < n" for j
  proof -
    have j: "j < length tw" using that by (simp add: n)
    then have "in_time t1 (oks ! j)" "j < length oks"
      using takeWhile_prefix_nth[of j "in_time t1" oks] by (simp_all add: tw_def)
    then show ?thesis using oks_nth(1) by simp
  qed
  have 3: "0 < n \<and> \<not> in_time t1 (qs ! (n - 1))" if "fst (batch_main L t1 qs) = Completed"
  proof -
    have lt: "length tw < length oks" using that comp by simp
    then have "\<not> in_time t1 (oks ! length tw)"
      using nth_length_takeWhile[of "in_time t1" oks] by (simp add: tw_def)
    moreover have "n = Suc (length tw)" using lt by (simp add: n)
    ultimately show ?thesis using oks_nth(1)[OF lt] by simp
  qed
  have 4: "fst (batch_main L t1 qs) = Completed \<and> n = Suc m"
    if h: "m < length qs \<and> (\<forall>j\<le>m. batch_tick_ok L t1 (qs ! j))
           \<and> (\<forall>j<m. in_time t1 (qs ! j)) \<and> \<not> in_time t1 (qs ! m)" for m
  proof -
    have "Suc m \<le> length (takeWhile (batch_tick_ok L t1) qs)"
    proof (rule length_takeWhile_less_P_nth)
      fix i assume "i < Suc m"
      then have "i \<le> m" by simp
      then show "batch_tick_ok L t1 (qs ! i)" using h by blast
    next
      show "Suc m \<le> length qs" using h by simp
    qed
    then have m: "m < length oks" by (simp add: oks_def)
    have "m \<le> length (takeWhile (in_time t1) oks)"
    proof (rule length_takeWhile_less_P_nth)
      fix i assume i: "i < m"
      then have "i < length oks" using m by simp
      then have "oks ! i = qs ! i" by (rule oks_nth(1))
      then show "in_time t1 (oks ! i)" using h i by simp
    next
      show "m \<le> length oks" using m by simp
    qed
    then have "m \<le> length tw" by (simp add: tw_def)
    moreover have "length tw \<le> m"
    proof (rule ccontr)
      assume "\<not> length tw \<le> m"
      then have "m < length tw" by simp
      from takeWhile_prefix_nth(1)[OF this[unfolded tw_def]] have "in_time t1 (oks ! m)" .
      then show False using h oks_nth(1)[OF m] by simp
    qed
    ultimately have "length tw = m" by simp
    then show ?thesis using m comp by (simp add: n)
  qed
  have "n \<le> length qs
       \<and> (\<forall>j. Suc j < n \<longrightarrow> in_time t1 (qs ! j))
       \<and> (fst (batch_main L t1 qs) = Completed \<longrightarrow> 0 < n \<and> \<not> in_time t1 (qs ! (n - 1)))
       \<and> (\<forall>m. m < length qs \<and> (\<forall>j\<le>m. batch_tick_ok L t1 (qs ! j))
              \<and> (\<forall>j<m. in_time t1 (qs ! j)) \<and> \<not> in_time t1 (qs ! m)
             \<longrightarrow> fst (batch_main L t1 qs) = Completed \<and> n = Suc m)"
    using 1 2 3 4 by blast
  moreover have "log_duration = Fin 1800" by (simp add: log_duration_def)
  ultimately show ?thesis
    unfolding Let_def n_def[symmetric] by (rule conjI[rotated])
qed

theorem batch_loop_duration_witness:
  "(let qs = [\<lparr> b_forw = Inr ''0'', b_refl = Inr ''0'', b_vswr = Inr ''0'', b_temp = Inr ''0'',
                b_time = Fin 1 \<rparr>,
              \<lparr> b_forw = Inr ''0'', b_refl = Inr ''0'', b_vswr = Inr ''0'', b_temp = Inr ''0'',
                b_time = Fin 2000 \<rparr>,
              \<lparr> b_forw = Inr ''0'', b_refl = Inr ''0'', b_vswr = Inr ''0'', b_temp = Inr ''0'',
                b_time = Fin 2001 \<rparr>]
    in batch_tick_ok (\<lambda>q. 0) (Fin 0) (qs ! 0) \<and> batch_tick_ok (\<lambda>q. 0) (Fin 0) (qs ! 1)
     \<and> in_time (Fin 0) (qs ! 0) \<and> \<not> in_time (Fin 0) (qs ! 1)
     \<and> fst (batch_main (\<lambda>q. 0) (Fin 0) qs) = Completed
     \<and> length (file_rows (snd (batch_main (\<lambda>q. 0) (Fin 0) qs))) - 1 = 2)"
proof -
  define q1 where "q1 = \<lparr> b_forw = Inr ''0'', b_refl = Inr ''0'', b_vswr = Inr ''0'',
                b_temp = Inr ''0'', b_time = Fin 1 \<rparr>"
  define q2 where "q2 = \<lparr> b_forw = Inr ''0'', b_refl = Inr ''0'', b_vswr = Inr ''0'',
                b_temp = Inr ''0'', b_time = Fin 2000 \<rparr>"
  define q3 where "q3 = \<lparr> b_forw = Inr ''0'', b_refl = Inr ''0'', b_vswr = Inr ''0'',
                b_temp = Inr ''0'', b_time = Fin 2001 \<rparr>"
  have ok: "batch_tick_ok (\<lambda>q. 0) (Fin 0) q1" "batch_tick_ok (\<lambda>q. 0) (Fin 0) q2"
    by (simp_all add: batch_tick_ok_def batch_body_raises_iff batch_replies_convert_def
        fetch_float_examples q1_def q2_def)
  have tm: "in_time (Fin 0) q1" "\<not> in_time (Fin 0) q2"
    by (simp_all add: q1_def q2_def in_time_examples)
  have imp: "1 < length [q1, q2, q3]
         \<and> (\<forall>j\<le>1. batch_tick_ok (\<lambda>q. 0) (Fin 0) ([q1, q2, q3] ! j))
         \<and> (\<forall>j<1. in_time (Fin 0) ([q1, q2, q3] ! j))
         \<and> \<not> in_time (Fin 0) ([q1, q2, q3] ! 1)
       \<longrightarrow> fst (batch_main (\<lambda>q. 0) (Fin 0) [q1, q2, q3]) = Completed
         \<and> length (file_rows (snd (batch_main (\<lambda>q. 0) (Fin 0) [q1, q2, q3]))) - 1 = Suc 1"
    using batch_loop_duration[of "\<lambda>q. 0" "Fin 0" "[q1, q2, q3]"] unfolding Let_def by blast
  have pre: "1 < length [q1, q2, q3]
         \<and> (\<forall>j\<le>1. batch_tick_ok (\<lambda>q. 0) (Fin 0) ([q1, q2, q3] ! j))
         \<and> (\<forall>j<1. in_time (Fin 0) ([q1, q2, q3] ! j))
         \<and> \<not> in_time (Fin 0) ([q1, q2, q3] ! 1)"
    using ok tm by (simp add: le_Suc_eq)
  from imp pre have "fst (batch_main (\<lambda>q. 0) (Fin 0) [q1, q2, q3]) = Completed
         \<and> length (file_rows (snd (batch_main (\<lambda>q. 0) (Fin 0) [q1, q2, q3]))) - 1 = Suc 1"
    by (rule mp)
  then show ?thesis using ok tm unfolding Let_def q1_def q2_def q3_def by simp
qed

section \<open>Milliseconds to HH:MM:SS\<close>

text \<open>
  Claim C9, as amended. For every integer \<open>ms\<close> with \<open>0 \<le> ms < 2^44 * 1000\<close>,
  \<^verbatim>\<open>ms_to_hhmmss\<close> returns hours, minutes and seconds joined by colons (each padded to
  two digits), with minutes and seconds in \<open>[0, 59]\<close> and
  \<open>hours * 3600 + minutes * 60 + seconds = ms div 1000\<close>.
\<close>

theorem ms_to_hhmmss_decomposition:
  assumes "0 \<le> ms" "ms < 2 ^ 44 * 1000"
  shows "\<exists>h m s. ms_to_hhmmss ms = Inr (format_02d h @ '':'' @ format_02d m @ '':'' @ format_02d s)
           \<and> 0 \<le> h \<and> 0 \<le> m \<and> m \<le> 59 \<and> 0 \<le> s \<and> s \<le> 59
           \<and> h * 3600 + m * 60 + s = ms div 1000"
proof -
  from int_truediv_1000[OF assms] obtain x where
    x: "int_truediv ms 1000 = Inr (Fin x)" "0 \<le> x" "x < 2 ^ 53" "\<lfloor>x\<rfloor> = ms div 1000" by blast
  define k where "k = ms div 1000"
  have k0: "0 \<le> k" using assms(1) by (simp add: k_def pos_imp_zdiv_nonneg_iff)
  have "ms_to_hhmmss ms = Inr (format_02d (k div 3600) @ '':'' @ format_02d (k mod 3600 div 60)
          @ '':'' @ format_02d (k mod 60))"
    using hms_of_seconds[OF x(1-3)] by (simp add: x(4) k_def)
  moreover have "0 \<le> k div 3600" using k0 by (simp add: pos_imp_zdiv_nonneg_iff)
  moreover have "0 \<le> k mod 3600 div 60" by (simp add: pos_imp_zdiv_nonneg_iff)
  moreover have "k mod 3600 div 60 \<le> 59"
  proof -
    have "k mod 3600 < 60 * 60" by simp
    then have "k mod 3600 div 60 < 60" by linarith
    then show ?thesis by simp
  qed
  moreover have "0 \<le> k mod 60" "k mod 60 \<le> 59" by simp_all
  moreover note hms_sum[of k]
  ultimately show ?thesis unfolding k_def by blast
qed

theorem ms_to_hhmmss_decomposition_witness:
  "(0::int) \<le> 3723004 \<and> (3723004::int) < 2 ^ 44 * 1000
   \<and> (\<exists>h m s. ms_to_hhmmss 3723004 = Inr (format_02d h @ '':'' @ format_02d m @ '':'' @ format_02d s)
           \<and> 0 \<le> h \<and> 0 \<le> m \<and> m \<le> 59 \<and> 0 \<le> s \<and> s \<le> 59
           \<and> h * 3600 + m * 60 + s = 3723004 div 1000)"
  using ms_to_hhmmss_decomposition[of 3723004] by simp

text \<open>
  Beyond the bound the decomposition fails: \<^verbatim>\<open>ms / 1000\<close> is a true division, whose
  result is rounded to binary64, and for \<open>ms = 2^44 * 1000 + 999 = 17592186044416999\<close> the
  quotient \<open>17592186044416.999\<close> rounds up to \<open>17592186044417.0\<close>, one second too
  many.
\<close>

theorem ms_to_hhmmss_large_input:
  "ms_to_hhmmss 17592186044416999 = Inr ''4886718345:40:17''
   \<and> (4886718345 :: int) * 3600 + 40 * 60 + 17 \<noteq> 17592186044416999 div 1000"
proof -
  have tr: "int_truediv 17592186044416999 1000 = Inr (Fin 17592186044417)" by code_simp
  have fl: "\<lfloor>17592186044417 :: rat\<rfloor> = 17592186044417" by simp
  have f: "format_02d 4886718345 = ''4886718345''" "format_02d 40 = ''40''" "format_02d 17 = ''17''"
    by (simp_all add: format_02d_def zero_pad_def digit_char_def)
  have "ms_to_hhmmss 17592186044416999 = Inr (format_02d 4886718345 @ '':'' @ format_02d 40 @ '':'' @ format_02d 17)"
    using hms_of_seconds[OF tr] by (simp add: fl)
  then show ?thesis by (simp add: f)
qed


section \<open>The batch return loss is total\<close>

text \<open>
  Claim C10. The batch logger's \<^verbatim>\<open>vswr_to_return_loss\<close> returns for every input. When the
  conversion to float fails, or gives a float less than or equal to 1, it returns the
  float \<^verbatim>\<open>9.999e+37\<close> (the binary64 number 99989999999999996572221214942572838912); when
  the conversion gives a float greater than 1 it returns a string, the return loss
  formatted to two decimals, not a float.
\<close>

theorem vswr_to_return_loss_batch_total:
  "(\<exists>r. vswr_to_return_loss_batch L x = Inr r)
   \<and> (\<forall>e. py_float x = Inl e \<longrightarrow> vswr_to_return_loss_batch L x = Inr (PyFloat sentinel))
   \<and> (\<forall>v. py_float x = Inr v \<and> fle v (Fin 1) \<longrightarrow>
         vswr_to_return_loss_batch L x = Inr (PyFloat sentinel))
   \<and> (wf_pyval x \<longrightarrow> (\<forall>v. py_float x = Inr v \<and> flt (Fin 1) v \<longrightarrow>
         (\<exists>q l. fdiv (fsub v (Fin 1)) (fadd v (Fin 1)) = Inr q \<and> math_log10 L q = Inr l
            \<and> vswr_to_return_loss_batch L x = Inr (PyStr (format_f 2 (fmul (Fin (- 20)) l))))))
   \<and> sentinel = Fin 99989999999999996572221214942572838912"
proof (intro conjI allI impI)
  show "\<exists>r. vswr_to_return_loss_batch L x = Inr r"
    using helpers_total(3)[of L x] by (cases "vswr_to_return_loss_batch L x") auto
next
  fix e assume "py_float x = Inl e"
  then show "vswr_to_return_loss_batch L x = Inr (PyFloat sentinel)"
    by (simp add: vswr_to_return_loss_batch_def try_except_def bnd_def)
next
  fix v assume "py_float x = Inr v \<and> fle v (Fin 1)"
  then show "vswr_to_return_loss_batch L x = Inr (PyFloat sentinel)"
    by (simp add: vswr_to_return_loss_batch_def try_except_def bnd_def)
next
  fix v assume wf: "wf_pyval x" and a: "py_float x = Inr v \<and> flt (Fin 1) v"
  then have dv: "is_double v" using py_float_is_double by simp
  have nle: "\<not> fle v (Fin 1)" using a flt_not_fle by simp
  from vswr_quotient[OF dv, of L] a obtain q l where
    ql: "fdiv (fsub v (Fin 1)) (fadd v (Fin 1)) = Inr q" "math_log10 L q = Inr l" by blast
  then have "vswr_to_return_loss_batch L x = Inr (PyStr (format_f 2 (fmul (Fin (- 20)) l)))"
    using a nle by (simp add: vswr_to_return_loss_batch_def try_except_def bnd_def)
  then show "\<exists>q l. fdiv (fsub v (Fin 1)) (fadd v (Fin 1)) = Inr q \<and> math_log10 L q = Inr l
            \<and> vswr_to_return_loss_batch L x = Inr (PyStr (format_f 2 (fmul (Fin (- 20)) l)))"
    using ql by blast
next
  show "sentinel = Fin 99989999999999996572221214942572838912" by code_simp
qed

theorem vswr_to_return_loss_batch_total_witness:
  "py_float PyNone = Inl TypeError
   \<and> vswr_to_return_loss_batch (\<lambda>q. 0) PyNone = Inr (PyFloat sentinel)
   \<and> py_float (PyFloat (Fin 1)) = Inr (Fin 1) \<and> fle (Fin 1) (Fin 1)
   \<and> vswr_to_return_loss_batch (\<lambda>q. 0) (PyFloat (Fin 1)) = Inr (PyFloat sentinel)
   \<and> wf_pyval (PyFloat PInf) \<and> py_float (PyFloat PInf) = Inr PInf \<and> flt (Fin 1) PInf
   \<and> (\<exists>q l. fdiv (fsub PInf (Fin 1)) (fadd PInf (Fin 1)) = Inr q
          \<and> math_log10 (\<lambda>q. 0) q = Inr l
          \<and> vswr_to_return_loss_batch (\<lambda>q. 0) (PyFloat PInf)
              = Inr (PyStr (format_f 2 (fmul (Fin (- 20)) l))))"
  using vswr_to_return_loss_batch_total[of "\<lambda>q. 0" PyNone]
    vswr_to_return_loss_batch_total[of "\<lambda>q. 0" "PyFloat (Fin 1)"]
    vswr_to_return_loss_batch_total[of "\<lambda>q. 0" "PyFloat PInf"]
  by (simp add: wf_pyval_def flt_def fle_def)


end

